theory Spec2Isabelle
  imports Main "HOL-Library.Word" "HOL-Library.Multiset"
begin

unbundle bit_operations_syntax

chapter \<open>Random Universe Cipher: embedding and verified properties\<close>

text \<open>
  The development follows the repository: the algorithms of the cipher are taken from the
  algorithm listings of \<^verbatim>\<open>README.md\<close> (key expansion, S-box generation and its
  property checks, GF(2^8) arithmetic, the ChaCha20 reader, block encryption and decryption,
  the CTR and CBC modes, PKCS#7 padding), and the public API from
  \<^verbatim>\<open>src/cipher/index.ts\<close> (encoding helpers, password-bundled envelopes).

  The hash and stream primitives come from external libraries. SHAKE256 is an
  extendable-output function: it is a parameter \<open>xof\<close> giving, for an input byte string,
  the output byte at each position, so that a request for \<open>len\<close> bytes always has length
  \<open>len\<close> and a longer request extends a shorter one. The ChaCha20 block function is a
  parameter in the same way. Every theorem below holds for all such primitives.
\<close>

section \<open>Data model\<close>

type_synonym byte = "8 word"
type_synonym bytes = "byte list"

type_synonym uint512 = "512 word"
type_synonym uint1024 = "1024 word"

text \<open>
  The external primitives. \<open>xof_byte p data i\<close> is byte \<open>i\<close> of the SHAKE256 output
  stream on input \<open>data\<close>; \<open>chacha_byte p key nonce counter i\<close> is byte \<open>i\<close> of the
  64-byte ChaCha20 block for that key, nonce and block counter. The authentication tag of
  the AEAD construction is computed by \<^verbatim>\<open>aead.ts\<close>, which is not among the sources:
  \<open>tag_byte p auth_key enc_key nonce input i\<close> is byte \<open>i\<close> of the tag over the
  authenticated input.
\<close>
record primitives =
  xof_byte :: "bytes \<Rightarrow> nat \<Rightarrow> byte"
  chacha_byte :: "bytes \<Rightarrow> bytes \<Rightarrow> nat \<Rightarrow> nat \<Rightarrow> byte"
  tag_byte :: "bytes \<Rightarrow> bytes \<Rightarrow> bytes \<Rightarrow> bytes \<Rightarrow> nat \<Rightarrow> byte"

text \<open>\<open>SHAKE256(data, len)\<close> of the listings and \<open>shake256Hash\<close> of the wrapper.\<close>
definition SHAKE256 :: "primitives \<Rightarrow> bytes \<Rightarrow> nat \<Rightarrow> bytes" where
  "SHAKE256 p data len = map (xof_byte p data) [0..<len]"

text \<open>\<open>ChaCha20_Block(key, nonce, counter)\<close>: one 64-byte block.\<close>
definition ChaCha20_Block :: "primitives \<Rightarrow> bytes \<Rightarrow> bytes \<Rightarrow> nat \<Rightarrow> bytes" where
  "ChaCha20_Block p k n c = map (chacha_byte p k n c) [0..<64]"

text \<open>The primitives that answer zero everywhere, for closed instances of the theorems.\<close>
definition zero_prims :: primitives where
  "zero_prims = \<lparr>xof_byte = (\<lambda>data i. 0), chacha_byte = (\<lambda>k n c i. 0),
                  tag_byte = (\<lambda>ak ek n d i. 0)\<rparr>"

text \<open>Primitives whose hash stream is \<open>0, 255, 0, 254, 0, 253, ...\<close>: as a shuffle seed
  it makes every Fisher-Yates draw of the S-box builder equal to its own position.\<close>
definition ramp_prims :: primitives where
  "ramp_prims = \<lparr>xof_byte = (\<lambda>data k. if even k then 0 else of_nat (255 - k div 2)),
                  chacha_byte = (\<lambda>k n c i. 0), tag_byte = (\<lambda>ak ek n d i. 0)\<rparr>"

text \<open>ASCII domain tags as bytes, and big-endian conversions (\<open>bytes_to_int\<close>,
  \<open>int_to_bytes(v, n)\<close> of the listings). \<open>int_to_bytes\<close> keeps the low \<open>n\<close> bytes.\<close>

definition ascii :: "string \<Rightarrow> bytes" where
  "ascii s = map of_char s"

definition bytes_to_nat :: "bytes \<Rightarrow> nat" where
  "bytes_to_nat bs = foldl (\<lambda>acc b. acc * 256 + unat b) 0 bs"

definition bytes_to_int :: "bytes \<Rightarrow> 'a::len word" where
  "bytes_to_int bs = of_nat (bytes_to_nat bs)"

definition int_to_bytes :: "nat \<Rightarrow> nat \<Rightarrow> bytes" where
  "int_to_bytes v n = map (\<lambda>i. of_nat (v div 256 ^ (n - 1 - i))) [0..<n]"

text \<open>Exchange of two array cells (\<open>temp = A[i]; A[i] = A[j]; A[j] = temp\<close>).\<close>
definition swap :: "'a list \<Rightarrow> nat \<Rightarrow> nat \<Rightarrow> 'a list" where
  "swap xs i j = (let temp = xs ! i; xs1 = xs[i := xs ! j] in xs1[j := temp])"

text \<open>The running maximum of the property loops (\<open>IF c > max THEN max = c\<close>).\<close>
definition max_step :: "'a::linorder \<Rightarrow> 'a \<Rightarrow> 'a" where
  "max_step c m = (if c > m then c else m)"

section \<open>GF(2^8) arithmetic\<close>

text \<open>Listing \<open>GF_MUL\<close>: the reduced polynomial constant.\<close>
definition POLY :: byte where
  "POLY = 0x1B"

text \<open>
  The body of the loop \<open>FOR i FROM 0 TO 7\<close> of \<open>GF_MUL\<close>, with the loop counter as
  the number of iterations left.
\<close>
fun gf_mul_loop :: "nat \<Rightarrow> byte \<Rightarrow> byte \<Rightarrow> byte \<Rightarrow> byte" where
  "gf_mul_loop 0 a b result = result"
| "gf_mul_loop (Suc n) a b result =
     (let result' = (if b AND 1 \<noteq> 0 then result XOR a else result);
          high_bit = a AND 0x80;
          a1 = push_bit 1 a AND 0xFF;
          a2 = (if high_bit \<noteq> 0 then a1 XOR POLY else a1);
          b' = drop_bit 1 b
      in gf_mul_loop n a2 b' result')"

definition GF_MUL :: "byte \<Rightarrow> byte \<Rightarrow> byte" where
  "GF_MUL a b = gf_mul_loop 8 a b 0"

text \<open>
  Modelled from the spec: \<open>gf_pow\<close> (the \<open>gfPow\<close> of \<^verbatim>\<open>gf-math.ts\<close>, which is not
  among the sources; only its tests are). The spec names it in the Fermat property and the
  tests fix \<open>gf_pow a 0 = 1\<close> and \<open>gf_pow a 1 = a\<close>: the power is the iterated field product.
\<close>
fun gf_pow :: "byte \<Rightarrow> nat \<Rightarrow> byte" where
  "gf_pow a 0 = 1"
| "gf_pow a (Suc n) = GF_MUL a (gf_pow a n)"

text \<open>Auxiliary notions for the proofs: one doubling step, and the product as a sum.\<close>

definition xtime :: "byte \<Rightarrow> byte" where
  "xtime a = (if bit a 7 then push_bit 1 a XOR POLY else push_bit 1 a)"

fun gf_sum :: "nat \<Rightarrow> byte \<Rightarrow> byte \<Rightarrow> byte" where
  "gf_sum 0 a b = 0"
| "gf_sum (Suc n) a b = (if bit b 0 then a else 0) XOR gf_sum n (xtime a) (drop_bit 1 b)"

definition mul3 :: "byte \<Rightarrow> byte" where
  "mul3 a = a XOR xtime a"

fun pows :: "nat \<Rightarrow> byte \<Rightarrow> byte list" where
  "pows 0 x = []"
| "pows (Suc n) x = x # pows n (mul3 x)"

section \<open>S-box property tests\<close>

fun popcount :: "nat \<Rightarrow> nat" where
  "popcount n = (if n = 0 then 0 else n mod 2 + popcount (n div 2))"

declare popcount.simps [simp del]

text \<open>Listing \<open>walsh_hadamard_transform\<close>: the loop over \<open>j\<close>, the loop over \<open>i\<close> in
  steps of \<open>2*h\<close>, and the loop \<open>WHILE h < 256\<close>. The listing starts the last one at
  \<open>h = 1\<close>; the guard \<open>0 < h\<close> only makes the recursion total.\<close>

fun wht_j :: "nat \<Rightarrow> nat \<Rightarrow> nat \<Rightarrow> int list \<Rightarrow> int list" where
  "wht_j h j 0 wht = wht"
| "wht_j h j (Suc c) wht =
     (let x = wht ! j; y = wht ! (j + h);
          wht1 = wht[j := x + y];
          wht2 = wht1[j + h := x - y]
      in wht_j h (j + 1) c wht2)"

definition wht_i :: "nat \<Rightarrow> int list \<Rightarrow> int list" where
  "wht_i h wht = fold (\<lambda>i w. wht_j h i h w) (filter (\<lambda>i. i mod (2 * h) = 0) [0..<256]) wht"

function wht_while :: "nat \<Rightarrow> int list \<Rightarrow> int list" where
  "wht_while h wht = (if 0 < h \<and> h < 256 then wht_while (h * 2) (wht_i h wht) else wht)"
  by pat_completeness auto
termination
  by (relation "measure (\<lambda>(h, wht). 256 - h)") auto

declare wht_while.simps [simp del]

definition walsh_hadamard_transform :: "nat list \<Rightarrow> int list" where
  "walsh_hadamard_transform f = wht_while 1 (map (\<lambda>i. 1 - 2 * int (f ! i)) [0..<256])"

definition component_truth_table :: "bytes \<Rightarrow> nat \<Rightarrow> nat list" where
  "component_truth_table sbox output_mask =
     map (\<lambda>x. popcount (unat (sbox ! x AND of_nat output_mask)) mod 2) [0..<256]"

definition compute_nonlinearity :: "bytes \<Rightarrow> int" where
  "compute_nonlinearity sbox =
     (let max_walsh =
        fold (\<lambda>output_mask max_walsh.
                fold (\<lambda>w m. max_step \<bar>w\<bar> m)
                  (walsh_hadamard_transform (component_truth_table sbox output_mask)) max_walsh)
          [1..<256] 0
      in 128 - max_walsh div 2)"

text \<open>Listing \<open>compute_differential_uniformity\<close>: one row of the difference
  distribution table, then the maximum over all rows of non-zero input difference.\<close>

definition ddt_row :: "bytes \<Rightarrow> nat \<Rightarrow> nat list" where
  "ddt_row sbox input_diff =
     fold (\<lambda>x counts.
             let output_diff = unat (sbox ! x XOR sbox ! (x XOR input_diff))
             in counts[output_diff := counts ! output_diff + 1])
       [0..<256] (replicate 256 0)"

definition compute_differential_uniformity :: "bytes \<Rightarrow> nat" where
  "compute_differential_uniformity sbox =
     fold (\<lambda>input_diff max_count. fold max_step (ddt_row sbox input_diff) max_count)
       [1..<256] 0"

text \<open>Listing \<open>mobius_transform\<close> and \<open>compute_algebraic_degree\<close>.\<close>

definition mobius_transform :: "nat list \<Rightarrow> nat list" where
  "mobius_transform f =
     fold (\<lambda>i anf.
             let step = push_bit i (1::nat)
             in fold (\<lambda>j anf. if j AND step \<noteq> 0
                               then anf[j := anf ! j XOR anf ! (j XOR step)] else anf)
                  [0..<256] anf)
       [0..<8] f"

definition compute_algebraic_degree :: "bytes \<Rightarrow> nat" where
  "compute_algebraic_degree sbox =
     fold (\<lambda>output_bit max_degree.
             let truth_table = map (\<lambda>x. unat (drop_bit output_bit (sbox ! x) AND 1)) [0..<256];
                 anf = mobius_transform truth_table
             in fold (\<lambda>i md. if anf ! i \<noteq> 0 then max_step (popcount i) md else md)
                  [0..<256] max_degree)
       [0..<8] 0"

text \<open>Listing \<open>verify_sbox_properties\<close>: the scan with the \<open>seen\<close> array, then the
  three thresholds, each an early \<open>RETURN false\<close>.\<close>

fun seen_scan :: "bytes \<Rightarrow> nat list \<Rightarrow> bool list \<Rightarrow> bool" where
  "seen_scan sbox [] seen = True"
| "seen_scan sbox (i # rest) seen =
     (if seen ! unat (sbox ! i) then False
      else seen_scan sbox rest (seen[unat (sbox ! i) := True]))"

definition verify_sbox_properties :: "bytes \<Rightarrow> bool" where
  "verify_sbox_properties sbox =
     (if \<not> seen_scan sbox [0..<256] (replicate 256 False) then False
      else if compute_nonlinearity sbox < 100 then False
      else if compute_differential_uniformity sbox > 4 then False
      else if compute_algebraic_degree sbox < 7 then False
      else True)"

section \<open>S-box generation\<close>

text \<open>Listing \<open>generate_sbox\<close>, step 2: the Fisher-Yates loop
  \<open>FOR i FROM 255 DOWN TO 1\<close>, two seed bytes per exchange.\<close>

fun fisher_yates_sbox :: "nat \<Rightarrow> bytes \<Rightarrow> bytes \<Rightarrow> bytes" where
  "fisher_yates_sbox 0 shuffle_seed sbox = sbox"
| "fisher_yates_sbox (Suc i') shuffle_seed sbox =
     (let i = Suc i';
          idx = 2 * (255 - i);
          rand_val = push_bit 8 (unat (shuffle_seed ! idx)) OR unat (shuffle_seed ! (idx + 1));
          j = rand_val mod (i + 1)
      in fisher_yates_sbox i' shuffle_seed (swap sbox i j))"

text \<open>Step 1: the identity permutation \<open>[0, 1, 2, ..., 255]\<close>.\<close>
definition identity_sbox :: bytes where
  "identity_sbox = map of_nat [0..<256]"

definition shuffle_identity :: "primitives \<Rightarrow> bytes \<Rightarrow> bytes \<Rightarrow> bytes" where
  "shuffle_identity p K domain_sep =
     (let sbox = identity_sbox;
          shuffle_seed = SHAKE256 p (K @ domain_sep) 512
      in fisher_yates_sbox 255 shuffle_seed sbox)"

text \<open>
  Modelled from the spec: \<open>regenerate_with_new_seed\<close>, which the listing calls and does
  not define. The spec has a retry restart from the identity permutation with 512 fresh
  SHAKE256 bytes under the extended domain separation.
\<close>
definition regenerate_with_new_seed :: "primitives \<Rightarrow> bytes \<Rightarrow> bytes \<Rightarrow> bytes" where
  "regenerate_with_new_seed p K domain_sep = shuffle_identity p K domain_sep"

text \<open>The candidate of attempt \<open>t\<close>: the first shuffle for \<open>t = 0\<close>, retry \<open>t\<close> otherwise.\<close>
definition sbox_candidate :: "primitives \<Rightarrow> bytes \<Rightarrow> nat \<Rightarrow> nat \<Rightarrow> bytes" where
  "sbox_candidate p K round t =
     (if t = 0 then shuffle_identity p K (ascii ''RUC-SBOX'' @ int_to_bytes round 2)
      else regenerate_with_new_seed p K
             (ascii ''RUC-SBOX'' @ int_to_bytes round 2 @ int_to_bytes t 2))"

text \<open>The loop \<open>FOR retry FROM 1 TO 100\<close> with its \<open>BREAK\<close>; the third argument is the
  number of iterations left. When it runs out, the listing goes on to \<open>RETURN sbox\<close>.\<close>
fun retry_loop :: "primitives \<Rightarrow> bytes \<Rightarrow> nat \<Rightarrow> nat \<Rightarrow> nat \<Rightarrow> bytes \<Rightarrow> bytes" where
  "retry_loop p K round retry 0 sbox = sbox"
| "retry_loop p K round retry (Suc n) sbox =
     (let domain_sep = ascii ''RUC-SBOX'' @ int_to_bytes round 2 @ int_to_bytes retry 2;
          sbox1 = regenerate_with_new_seed p K domain_sep
      in if verify_sbox_properties sbox1 then sbox1
         else retry_loop p K round (retry + 1) n sbox1)"

definition generate_sbox :: "primitives \<Rightarrow> bytes \<Rightarrow> nat \<Rightarrow> bytes" where
  "generate_sbox p K round =
     (let sbox = shuffle_identity p K (ascii ''RUC-SBOX'' @ int_to_bytes round 2)
      in if \<not> verify_sbox_properties sbox then retry_loop p K round 1 100 sbox else sbox)"

text \<open>The strict acceptance bounds on their own.\<close>
definition strict_bounds :: "bytes \<Rightarrow> bool" where
  "strict_bounds sbox =
     (compute_nonlinearity sbox \<ge> 100 \<and> compute_differential_uniformity sbox \<le> 4 \<and>
      compute_algebraic_degree sbox \<ge> 7)"

section \<open>ChaCha20 reader\<close>

text \<open>Listing \<open>ChaCha20_Init\<close> and \<open>ChaCha20_NextBytes\<close>: a buffered reader over the
  block function, one 64-byte block at a time.\<close>

record chacha_state =
  cc_key :: bytes
  cc_nonce :: bytes
  cc_counter :: nat
  cc_buffer :: bytes
  cc_buffer_pos :: nat

definition ChaCha20_Init :: "bytes \<Rightarrow> bytes \<Rightarrow> chacha_state" where
  "ChaCha20_Init k n =
     \<lparr>cc_key = k, cc_nonce = n, cc_counter = 0, cc_buffer = [], cc_buffer_pos = 64\<rparr>"

definition chacha_refill :: "primitives \<Rightarrow> chacha_state \<Rightarrow> chacha_state" where
  "chacha_refill p st =
     (if cc_buffer_pos st \<ge> 64
      then st\<lparr>cc_buffer := ChaCha20_Block p (cc_key st) (cc_nonce st) (cc_counter st),
              cc_counter := cc_counter st + 1,
              cc_buffer_pos := 0\<rparr>
      else st)"

function next_bytes_loop :: "primitives \<Rightarrow> chacha_state \<Rightarrow> nat \<Rightarrow> bytes \<Rightarrow> bytes \<times> chacha_state" where
  "next_bytes_loop p st cnt result =
     (if cnt > 0 then
        (let st1 = chacha_refill p st;
             available = 64 - cc_buffer_pos st1;
             tk = min available cnt;
             result1 = result @ take tk (drop (cc_buffer_pos st1) (cc_buffer st1));
             st2 = st1\<lparr>cc_buffer_pos := cc_buffer_pos st1 + tk\<rparr>
         in next_bytes_loop p st2 (cnt - tk) result1)
      else (result, st))"
  by pat_completeness auto
termination
proof (relation "measure (\<lambda>(p, st, cnt, result). cnt)")
  show "wf (measure (\<lambda>(p, st, cnt, result). cnt))" by simp
next
  fix p :: primitives and st :: chacha_state and cnt :: nat and result :: bytes
    and st1 available tk result1 st2
  assume c: "0 < cnt" and st1: "st1 = chacha_refill p st"
    and av: "available = 64 - cc_buffer_pos st1" and tk: "tk = min available cnt"
  have "cc_buffer_pos st1 < 64"
    unfolding st1 chacha_refill_def by simp
  then have "0 < tk" using c av tk by simp
  then show "((p, st2, cnt - tk, result1), (p, st, cnt, result))
               \<in> measure (\<lambda>(p, st, cnt, result). cnt)"
    using c by simp
qed

declare next_bytes_loop.simps [simp del]

definition ChaCha20_NextBytes :: "primitives \<Rightarrow> chacha_state \<Rightarrow> nat \<Rightarrow> bytes \<times> chacha_state" where
  "ChaCha20_NextBytes p st cnt = next_bytes_loop p st cnt []"

section \<open>Key expansion\<close>

definition REGISTER_SIZE :: nat where
  "REGISTER_SIZE = 64"

definition ROUND_COUNT :: nat where
  "ROUND_COUNT = 24"

record KeyMaterial =
  km_R :: "uint512 list"
  km_SEL :: "nat list"
  km_S :: "bytes list"
  km_RK :: "uint512 list"

text \<open>Listing \<open>key_expand\<close>, step 1: one state register.\<close>
definition expand_register :: "primitives \<Rightarrow> bytes \<Rightarrow> nat \<Rightarrow> uint512" where
  "expand_register p K i =
     (let domain_sep = ascii ''RUC-REG'' @ [of_nat i]
      in bytes_to_int (SHAKE256 p (K @ domain_sep) REGISTER_SIZE))"

text \<open>Step 3: one selector, made odd and non-zero.\<close>
definition expand_selector :: "primitives \<Rightarrow> bytes \<Rightarrow> nat \<Rightarrow> nat" where
  "expand_selector p K i =
     (let domain_sep = ascii ''RUC-SEL'' @ int_to_bytes i 2;
          sel_bytes = SHAKE256 p (K @ domain_sep) 2;
          selector = bytes_to_nat sel_bytes;
          selector1 = (if selector mod 2 = 0 then selector + 1 else selector);
          selector2 = (if selector1 = 0 then 1 else selector1)
      in selector2)"

text \<open>Steps 2 and 3: the selector count and the selectors before the shuffle.\<close>
definition num_selectors :: "bytes \<Rightarrow> nat" where
  "num_selectors K = 16 + unat (K ! 1) mod 16"

definition preshuffle_selectors :: "primitives \<Rightarrow> bytes \<Rightarrow> nat list" where
  "preshuffle_selectors p K = map (expand_selector p K) [0..<num_selectors K]"

text \<open>Step 4: the Fisher-Yates loop \<open>FOR i FROM num_selectors - 1 DOWN TO 1\<close>, four
  reader bytes per exchange.\<close>
fun permute_selectors :: "primitives \<Rightarrow> nat \<Rightarrow> chacha_state \<Rightarrow> nat list \<Rightarrow> nat list" where
  "permute_selectors p 0 prng_state SEL = SEL"
| "permute_selectors p (Suc i') prng_state SEL =
     (let i = Suc i';
          (rand_bytes, prng_state1) = ChaCha20_NextBytes p prng_state 4;
          rand_int = bytes_to_nat rand_bytes;
          j = rand_int mod (i + 1)
      in permute_selectors p i' prng_state1 (swap SEL i j))"

text \<open>Step 5: one round key.\<close>
definition expand_round_key :: "primitives \<Rightarrow> bytes \<Rightarrow> nat \<Rightarrow> uint512" where
  "expand_round_key p K r =
     (let domain_sep = ascii ''RUC-RK'' @ int_to_bytes r 2
      in bytes_to_int (SHAKE256 p (K @ domain_sep) REGISTER_SIZE))"

definition key_expand :: "primitives \<Rightarrow> bytes \<Rightarrow> KeyMaterial" where
  "key_expand p K =
     (let R = map (expand_register p K) [0..<7];
          SEL = preshuffle_selectors p K;
          chacha_key = SHAKE256 p (K @ ascii ''RUC-PERM'') 32;
          chacha_nonce = replicate 12 0;
          prng_state = ChaCha20_Init chacha_key chacha_nonce;
          SEL1 = permute_selectors p (num_selectors K - 1) prng_state SEL;
          RK = map (expand_round_key p K) [0..<ROUND_COUNT];
          S = map (generate_sbox p K) [0..<ROUND_COUNT]
      in \<lparr>km_R = R, km_SEL = SEL1, km_S = S, km_RK = RK\<rparr>)"

section \<open>State initialisation\<close>

definition ROL :: "uint512 \<Rightarrow> nat \<Rightarrow> uint512" where
  "ROL x n = word_rotl n x"

text \<open>Listing \<open>mix_iv_into_state\<close>. The registers are updated in place, one after the
  other, so a later register reads the new value of an earlier one.\<close>

definition cross_mix :: "uint512 list \<Rightarrow> uint512 list" where
  "cross_mix R =
     fold (\<lambda>i R. let R1 = R[i := R ! i XOR ROL (R ! ((i + 1) mod 7)) 17]
                  in R1[i := R1 ! i XOR ROL (R1 ! ((i + 3) mod 7)) 41])
       [0..<7] R"

definition mix_iv_into_state :: "primitives \<Rightarrow> uint512 list \<Rightarrow> bytes \<Rightarrow> uint512 list" where
  "mix_iv_into_state p R IV =
     (let iv_expanded = SHAKE256 p (IV @ ascii ''RUC-IV-EXPAND'') 64;
          iv_int = (bytes_to_int iv_expanded :: uint512);
          R1 = fold (\<lambda>i R. let rotation = (i * 73) mod 512;
                                rotated_iv = ROL iv_int rotation
                            in R[i := R ! i XOR rotated_iv])
                 [0..<7] R
      in fold (\<lambda>round R. cross_mix R) [0..<3] R1)"

section \<open>Block encryption and decryption\<close>

text \<open>Listing \<open>GF_MUL_REGISTER\<close>: the 64 bytes of a register, each multiplied.\<close>
definition GF_MUL_REGISTER :: "uint512 \<Rightarrow> byte \<Rightarrow> uint512" where
  "GF_MUL_REGISTER R multiplier =
     fold (\<lambda>i result.
             let shift = 8 * (63 - i);
                 byte_i = (ucast (drop_bit shift R AND 0xFF) :: byte);
                 product = GF_MUL byte_i multiplier
             in result OR push_bit shift (ucast product))
       [0..<64] 0"

text \<open>Step 1 of \<open>encrypt_block\<close>: one priority per selector from the ChaCha20 reader,
  then a stable sort by priority.\<close>
fun collect_priorities ::
  "primitives \<Rightarrow> chacha_state \<Rightarrow> nat list \<Rightarrow> nat \<Rightarrow> (nat \<times> nat \<times> nat) list" where
  "collect_priorities p priority_prng [] j = []"
| "collect_priorities p priority_prng (s # rest) j =
     (let (prio_bytes, priority_prng1) = ChaCha20_NextBytes p priority_prng 4;
          priority = bytes_to_nat prio_bytes mod 7
      in (s, priority, j) # collect_priorities p priority_prng1 rest (j + 1))"

definition ordered_selectors :: "primitives \<Rightarrow> bytes \<Rightarrow> bytes \<Rightarrow> nat \<Rightarrow> nat list \<Rightarrow> nat list" where
  "ordered_selectors p K IV n SEL =
     (let priority_seed = SHAKE256 p (K @ IV @ int_to_bytes n 8 @ ascii ''RUC-PRIO'') 32;
          priority_prng = ChaCha20_Init priority_seed (replicate 12 0);
          priorities = collect_priorities p priority_prng SEL 0;
          priorities1 = sort_key (\<lambda>x. fst (snd x)) priorities
      in map fst priorities1)"

text \<open>Step 3a: the work for one selector, on the registers and the accumulator.\<close>
definition selector_step ::
  "primitives \<Rightarrow> bytes \<Rightarrow> bytes \<Rightarrow> uint512 \<Rightarrow> nat \<Rightarrow> uint512 list \<times> uint1024
     \<Rightarrow> uint512 list \<times> uint1024" where
  "selector_step p K S_r RK_r sel st =
     (let R = fst st; ACC = snd st;
          dest_val = (R ! 0 AND 0xFFFFFFFF) XOR of_nat sel XOR (RK_r AND 0xFFFFFFFF);
          place_idx = unat dest_val mod 7;
          temp = (sel * 2) AND 0xFFFF;
          state_byte = (ucast (drop_bit 504 (R ! place_idx) AND 0xFF) :: byte);
          gf_result = GF_MUL (of_nat (temp AND 0xFF)) state_byte;
          const_seed = SHAKE256 p (K @ ascii ''RUC-CONST'' @ int_to_bytes sel 2) 1;
          key_const = const_seed ! 0;
          gf_result1 = gf_result XOR key_const;
          result = S_r ! unat gf_result1;
          R1 = R[place_idx := GF_MUL_REGISTER (R ! place_idx) result];
          shift_amount = sel mod 16;
          R2 = R1[place_idx := R1 ! place_idx XOR push_bit shift_amount (ucast result)];
          low_byte = (ucast (R2 ! place_idx AND 0xFF) :: byte);
          sbox_result = S_r ! unat low_byte;
          R3 = R2[place_idx := R2 ! place_idx XOR ucast sbox_result];
          R4 = R3[place_idx := ROL (R3 ! place_idx) 1];
          R5 = R4[place_idx := R4 ! place_idx XOR R4 ! ((place_idx + 1) mod 7)];
          ACC1 = ACC + ucast result
      in (R5, ACC1))"

text \<open>Step 3: one round, the selectors in order and then the mixing of step 3b.\<close>
definition round_step ::
  "primitives \<Rightarrow> bytes \<Rightarrow> KeyMaterial \<Rightarrow> nat list \<Rightarrow> nat \<Rightarrow> uint512 list \<times> uint1024
     \<Rightarrow> uint512 list \<times> uint1024" where
  "round_step p K km ordered r st =
     (let st1 = fold (selector_step p K (km_S km ! r) (km_RK km ! r)) ordered st;
          R2 = fold (\<lambda>i R. let Ra = R[i := R ! i XOR R ! ((i + 1) mod 7)]
                            in Ra[i := Ra ! i XOR Ra ! ((i + 2) mod 7)])
                 [0..<7] (fst st1)
      in (R2, snd st1))"

text \<open>
  Steps 1 to 4, which the listings \<open>encrypt_block\<close> and \<open>decrypt_block\<close> have word for
  word in common: the keystream of the block and the registers after the rounds. The block
  text is not an input.
\<close>
definition block_keystream ::
  "primitives \<Rightarrow> bytes \<Rightarrow> bytes \<Rightarrow> nat \<Rightarrow> uint512 list \<Rightarrow> KeyMaterial \<Rightarrow> bytes \<times> uint512 list" where
  "block_keystream p K IV n R km =
     (let ordered = ordered_selectors p K IV n (km_SEL km);
          st = fold (round_step p K km ordered) [0..<ROUND_COUNT] (R, 0);
          R1 = fst st; ACC = snd st;
          combined = int_to_bytes (unat ACC) 128
                       @ concat (map (\<lambda>i. int_to_bytes (unat (R1 ! i)) 64) [0..<7]);
          keystream = SHAKE256 p (combined @ ascii ''RUC-KS'' @ int_to_bytes n 8) 32
      in (keystream, R1))"

text \<open>Step 5: \<open>FOR i FROM 0 TO 31: C[i] = P[i] XOR keystream[i]\<close>.\<close>
definition xor_block :: "bytes \<Rightarrow> bytes \<Rightarrow> bytes" where
  "xor_block A B = map (\<lambda>i. A ! i XOR B ! i) [0..<32]"

text \<open>Step 6: the ciphertext fed back into the registers.\<close>
definition ciphertext_feedback :: "bytes \<Rightarrow> uint512 list \<Rightarrow> uint512 list" where
  "ciphertext_feedback C R =
     (let C_int = (bytes_to_int C :: uint512)
      in fold (\<lambda>i R. let feedback_shift = (i * 37) mod 256
                      in R[i := R ! i XOR push_bit feedback_shift C_int])
           [0..<7] R)"

definition encrypt_block ::
  "primitives \<Rightarrow> bytes \<Rightarrow> bytes \<Rightarrow> bytes \<Rightarrow> nat \<Rightarrow> uint512 list \<Rightarrow> KeyMaterial
     \<Rightarrow> bytes \<times> uint512 list" where
  "encrypt_block p P K IV n R km =
     (let ks = block_keystream p K IV n R km;
          C = xor_block P (fst ks)
      in (C, ciphertext_feedback C (snd ks)))"

definition decrypt_block ::
  "primitives \<Rightarrow> bytes \<Rightarrow> bytes \<Rightarrow> bytes \<Rightarrow> nat \<Rightarrow> uint512 list \<Rightarrow> KeyMaterial
     \<Rightarrow> bytes \<times> uint512 list" where
  "decrypt_block p C K IV n R km =
     (let ks = block_keystream p K IV n R km;
          P = xor_block C (fst ks)
      in (P, ciphertext_feedback C (snd ks)))"

section \<open>Padding\<close>

text \<open>The error classes that cross the boundary of the core.\<close>
datatype cipher_error =
    InvalidKeyLength | InvalidIVLength | InvalidNonceLength | InvalidCiphertextLength
  | InvalidPadding | EmptyData | AuthenticationFailed | SBoxGenerationFailed

definition pkcs7_pad :: "bytes \<Rightarrow> nat \<Rightarrow> bytes" where
  "pkcs7_pad data block_size =
     (let padding_len = block_size - (length data mod block_size);
          padding_len1 = (if padding_len = 0 then block_size else padding_len)
      in data @ replicate padding_len1 (of_nat padding_len1))"

definition pkcs7_unpad :: "bytes \<Rightarrow> cipher_error + bytes" where
  "pkcs7_unpad data =
     (if length data = 0 then Inl EmptyData
      else
        (let padding_len = unat (data ! (length data - 1))
         in if padding_len = 0 \<or> padding_len > length data then Inl InvalidPadding
            else if list_ex (\<lambda>i. unat (data ! i) \<noteq> padding_len)
                      [length data - padding_len..<length data]
            then Inl InvalidPadding
            else Inr (take (length data - padding_len) data)))"

text \<open>The blocks \<open>padded[n*32 : (n+1)*32]\<close> for \<open>n\<close> from 0 to \<open>len(padded) / 32 - 1\<close>.\<close>
definition split_blocks :: "bytes \<Rightarrow> bytes list" where
  "split_blocks padded =
     map (\<lambda>n. take 32 (drop (n * 32) padded)) [0..<length padded div 32]"

section \<open>Counter mode\<close>

text \<open>The body of the block loop of \<open>RUC_CTR_Encrypt\<close>: a fresh copy of the initial
  registers, the counter folded into register 0.\<close>
definition ctr_registers :: "primitives \<Rightarrow> uint512 list \<Rightarrow> nat \<Rightarrow> uint512 list" where
  "ctr_registers p R_init n =
     (let R = R_init;
          counter_bytes = int_to_bytes n 8
      in R[0 := R ! 0 XOR bytes_to_int (SHAKE256 p (counter_bytes @ ascii ''CTR'') 64)])"

text \<open>The loop \<open>FOR n FROM 0 TO num_blocks - 1\<close> over the blocks, with its counter.\<close>
fun ctr_encrypt_loop ::
  "primitives \<Rightarrow> bytes \<Rightarrow> bytes \<Rightarrow> uint512 list \<Rightarrow> KeyMaterial \<Rightarrow> nat \<Rightarrow> bytes list \<Rightarrow> bytes list" where
  "ctr_encrypt_loop p K IV R_init km n [] = []"
| "ctr_encrypt_loop p K IV R_init km n (P # rest) =
     (let R = ctr_registers p R_init n;
          C = fst (encrypt_block p P K IV n R km)
      in C # ctr_encrypt_loop p K IV R_init km (n + 1) rest)"

text \<open>The part of \<open>RUC_CTR_Encrypt\<close> after the IV is known (the
  \<open>RUC_CTR_Encrypt_NoNonce\<close> that the GCM listing calls): key expansion, IV mixing,
  padding, the block loop.\<close>
definition ctr_encrypt_body :: "primitives \<Rightarrow> bytes \<Rightarrow> bytes \<Rightarrow> bytes \<Rightarrow> bytes" where
  "ctr_encrypt_body p plaintext K IV =
     (let km = key_expand p K;
          R_init = mix_iv_into_state p (km_R km) IV;
          padded = pkcs7_pad plaintext 32
      in concat (ctr_encrypt_loop p K IV R_init km 0 (split_blocks padded)))"

definition RUC_CTR_Encrypt :: "primitives \<Rightarrow> bytes \<Rightarrow> bytes \<Rightarrow> bytes \<Rightarrow> bytes" where
  "RUC_CTR_Encrypt p plaintext K nonce =
     (let IV = SHAKE256 p (nonce @ ascii ''RUC-CTR-IV'') 32
      in nonce @ ctr_encrypt_body p plaintext K IV)"

text \<open>
  Modelled from the spec: counter-mode decryption (\<open>decryptCTR\<close> of \<^verbatim>\<open>modes.ts\<close>, which
  is not among the sources). The spec has the envelope \<open>nonce (16) || ciphertext (multiple
  of 32)\<close>, rejects a wrong key length and an envelope shorter than the header and one block
  before any work, reuses the block transform on a fresh copy of the initial registers
  for every block, and removes the PKCS#7 padding after the last block.
\<close>
fun ctr_decrypt_loop ::
  "primitives \<Rightarrow> bytes \<Rightarrow> bytes \<Rightarrow> uint512 list \<Rightarrow> KeyMaterial \<Rightarrow> nat \<Rightarrow> bytes list \<Rightarrow> bytes list" where
  "ctr_decrypt_loop p K IV R_init km n [] = []"
| "ctr_decrypt_loop p K IV R_init km n (C # rest) =
     (let R = ctr_registers p R_init n;
          P = fst (decrypt_block p C K IV n R km)
      in P # ctr_decrypt_loop p K IV R_init km (n + 1) rest)"

definition ctr_decrypt_body :: "primitives \<Rightarrow> bytes \<Rightarrow> bytes \<Rightarrow> bytes \<Rightarrow> cipher_error + bytes" where
  "ctr_decrypt_body p ciphertext K IV =
     (let km = key_expand p K;
          R_init = mix_iv_into_state p (km_R km) IV;
          padded = concat (ctr_decrypt_loop p K IV R_init km 0 (split_blocks ciphertext))
      in pkcs7_unpad padded)"

definition RUC_CTR_Decrypt :: "primitives \<Rightarrow> bytes \<Rightarrow> bytes \<Rightarrow> cipher_error + bytes" where
  "RUC_CTR_Decrypt p envelope K =
     (if length K \<noteq> 64 then Inl InvalidKeyLength
      else if length envelope < 16 + 32 \<or> (length envelope - 16) mod 32 \<noteq> 0
      then Inl InvalidCiphertextLength
      else
        (let nonce = take 16 envelope;
             ciphertext = drop 16 envelope;
             IV = SHAKE256 p (nonce @ ascii ''RUC-CTR-IV'') 32
         in ctr_decrypt_body p ciphertext K IV))"

text \<open>The keystream of block \<open>n\<close> in counter mode: a function of the key, the IV and the
  block index.\<close>
definition ctr_keystream :: "primitives \<Rightarrow> bytes \<Rightarrow> bytes \<Rightarrow> nat \<Rightarrow> bytes" where
  "ctr_keystream p K IV n =
     (let km = key_expand p K;
          R_init = mix_iv_into_state p (km_R km) IV
      in fst (block_keystream p K IV n (ctr_registers p R_init n) km))"

section \<open>Cipher block chaining\<close>

text \<open>Listing \<open>RUC_CBC_Encrypt\<close>: the block loop carries the registers and the previous
  ciphertext block.\<close>
fun cbc_encrypt_loop ::
  "primitives \<Rightarrow> bytes \<Rightarrow> bytes \<Rightarrow> KeyMaterial \<Rightarrow> nat \<Rightarrow> uint512 list \<Rightarrow> bytes \<Rightarrow> bytes list
     \<Rightarrow> bytes list" where
  "cbc_encrypt_loop p K IV km n R prev_C [] = []"
| "cbc_encrypt_loop p K IV km n R prev_C (P # rest) =
     (let P_xor = xor_block P prev_C;
          enc = encrypt_block p P_xor K IV n R km;
          C = fst enc
      in C # cbc_encrypt_loop p K IV km (n + 1) (snd enc) C rest)"

definition RUC_CBC_Encrypt :: "primitives \<Rightarrow> bytes \<Rightarrow> bytes \<Rightarrow> bytes \<Rightarrow> bytes" where
  "RUC_CBC_Encrypt p plaintext K IV =
     (let km = key_expand p K;
          R = mix_iv_into_state p (km_R km) IV;
          padded = pkcs7_pad plaintext 32
      in IV @ concat (cbc_encrypt_loop p K IV km 0 R IV (split_blocks padded)))"

text \<open>
  Modelled from the spec: CBC decryption (\<open>decryptCBC\<close> of \<^verbatim>\<open>modes.ts\<close>, which is not
  among the sources). The envelope is \<open>IV (32) || ciphertext (multiple of 32)\<close>; each block
  goes through \<open>decrypt_block\<close> with the registers carried over, and is then XORed with
  the previous ciphertext block (the IV for block 0).
\<close>
fun cbc_decrypt_loop ::
  "primitives \<Rightarrow> bytes \<Rightarrow> bytes \<Rightarrow> KeyMaterial \<Rightarrow> nat \<Rightarrow> uint512 list \<Rightarrow> bytes \<Rightarrow> bytes list
     \<Rightarrow> bytes list" where
  "cbc_decrypt_loop p K IV km n R prev_C [] = []"
| "cbc_decrypt_loop p K IV km n R prev_C (C # rest) =
     (let dec = decrypt_block p C K IV n R km;
          P = xor_block (fst dec) prev_C
      in P # cbc_decrypt_loop p K IV km (n + 1) (snd dec) C rest)"

definition RUC_CBC_Decrypt :: "primitives \<Rightarrow> bytes \<Rightarrow> bytes \<Rightarrow> cipher_error + bytes" where
  "RUC_CBC_Decrypt p envelope K =
     (if length K \<noteq> 64 then Inl InvalidKeyLength
      else if length envelope < 32 + 32 \<or> (length envelope - 32) mod 32 \<noteq> 0
      then Inl InvalidCiphertextLength
      else
        (let IV = take 32 envelope;
             ciphertext = drop 32 envelope;
             km = key_expand p K;
             R = mix_iv_into_state p (km_R km) IV;
             padded = concat (cbc_decrypt_loop p K IV km 0 R IV (split_blocks ciphertext))
         in pkcs7_unpad padded))"

section \<open>Authenticated encryption\<close>

text \<open>
  Modelled from the spec: the tag length of \<^verbatim>\<open>aead.ts\<close>, which is not among the
  sources. The spec gives the envelope as \<open>nonce (16) || ciphertext || tag (16)\<close>, and the
  listing \<open>RUC_GCM_Encrypt\<close> returns \<open>tag: bytes[16]\<close>.
\<close>
definition TAG_SIZE :: nat where
  "TAG_SIZE = 16"

definition pad16 :: "bytes \<Rightarrow> bytes" where
  "pad16 d = d @ replicate ((16 - length d mod 16) mod 16) 0"

text \<open>
  Modelled from the spec: \<open>aeadEncrypt\<close> and \<open>aeadDecrypt\<close> of \<^verbatim>\<open>aead.ts\<close>, which is
  not among the sources. Sub-keys, IV derivation and the layout of the authenticated input
  follow the spec and the listing \<open>RUC_GCM_Encrypt\<close>; the payload is encrypted in counter
  mode under the encryption key; the envelope is \<open>nonce || ciphertext || tag\<close>. On
  decryption the tag is computed and compared first, and a mismatch fails with
  \<open>AuthenticationFailed\<close> before anything is decrypted. The nonce, which the
  implementation draws at random, is an argument.
\<close>
definition aead_tag :: "primitives \<Rightarrow> bytes \<Rightarrow> bytes \<Rightarrow> bytes \<Rightarrow> bytes \<Rightarrow> bytes" where
  "aead_tag p K nonce aad ciphertext =
     (let enc_key = SHAKE256 p (K @ ascii ''RUC-GCM-ENC'') 64;
          auth_key = SHAKE256 p (K @ ascii ''RUC-GCM-AUTH'') 32;
          ghash_input = pad16 aad @ pad16 ciphertext
                          @ int_to_bytes (length aad * 8) 8 @ int_to_bytes (length ciphertext * 8) 8
      in map (tag_byte p auth_key enc_key nonce ghash_input) [0..<TAG_SIZE])"

definition aeadEncrypt :: "primitives \<Rightarrow> bytes \<Rightarrow> bytes \<Rightarrow> bytes \<Rightarrow> bytes \<Rightarrow> bytes" where
  "aeadEncrypt p plaintext K nonce aad =
     (let enc_key = SHAKE256 p (K @ ascii ''RUC-GCM-ENC'') 64;
          IV = SHAKE256 p (nonce @ ascii ''RUC-GCM-IV'') 32;
          ciphertext = ctr_encrypt_body p plaintext enc_key IV;
          tag = aead_tag p K nonce aad ciphertext
      in nonce @ ciphertext @ tag)"

definition aeadDecrypt :: "primitives \<Rightarrow> bytes \<Rightarrow> bytes \<Rightarrow> bytes \<Rightarrow> cipher_error + bytes" where
  "aeadDecrypt p envelope K aad =
     (if length K \<noteq> 64 then Inl InvalidKeyLength
      else if length envelope < 16 + 32 + TAG_SIZE \<or> (length envelope - 16 - TAG_SIZE) mod 32 \<noteq> 0
      then Inl InvalidCiphertextLength
      else
        (let nonce = take 16 envelope;
             ciphertext = take (length envelope - 16 - TAG_SIZE) (drop 16 envelope);
             tag = drop (length envelope - TAG_SIZE) envelope;
             expected = aead_tag p K nonce aad ciphertext
         in if tag \<noteq> expected then Inl AuthenticationFailed
            else
              (let enc_key = SHAKE256 p (K @ ascii ''RUC-GCM-ENC'') 64;
                   IV = SHAKE256 p (nonce @ ascii ''RUC-GCM-IV'') 32
               in ctr_decrypt_body p ciphertext enc_key IV)))"

section \<open>Public API: encoding helpers\<close>

text \<open>Errors thrown by the API functions of \<^verbatim>\<open>index.ts\<close>: a JavaScript \<open>Error\<close> with
  its message, and the \<open>DOMException\<close> that \<open>atob\<close> raises on malformed input.\<close>
datatype js_error = Error string | DOMException string

text \<open>
  \<open>bytesToHex\<close>: \<open>b.toString(16).padStart(2, '0')\<close> for every byte, joined.
  \<open>toString16\<close> is \<open>Number.prototype.toString(16)\<close> on a non-negative integer.
\<close>
definition hex_digits :: string where
  "hex_digits = ''0123456789abcdef''"

fun toString16 :: "nat \<Rightarrow> string" where
  "toString16 n = (if n < 16 then [hex_digits ! n]
                   else toString16 (n div 16) @ [hex_digits ! (n mod 16)])"

declare toString16.simps [simp del]

definition padStart :: "nat \<Rightarrow> char \<Rightarrow> string \<Rightarrow> string" where
  "padStart targetLength c s = replicate (targetLength - length s) c @ s"

definition bytesToHex :: "bytes \<Rightarrow> string" where
  "bytesToHex bs = concat (map (\<lambda>b. padStart 2 (CHR ''0'') (toString16 (unat b))) bs)"

text \<open>
  \<open>parseInt(s, 16)\<close>: leading white space is skipped, then an optional sign, then an
  optional \<open>0x\<close> or \<open>0X\<close>, then the longest run of hexadecimal digits in either case; what
  follows is ignored, and no digit at all gives \<open>NaN\<close>, here \<open>None\<close>.
\<close>
definition hex_value :: "char \<Rightarrow> nat option" where
  "hex_value c =
     (let n = (of_char c :: nat)
      in if 48 \<le> n \<and> n \<le> 57 then Some (n - 48)
         else if 97 \<le> n \<and> n \<le> 102 then Some (n - 87)
         else if 65 \<le> n \<and> n \<le> 70 then Some (n - 55)
         else None)"

fun parse_hex_digits :: "string \<Rightarrow> nat option \<Rightarrow> nat option" where
  "parse_hex_digits [] acc = acc"
| "parse_hex_digits (c # cs) acc =
     (case hex_value c of
        None \<Rightarrow> acc
      | Some v \<Rightarrow> parse_hex_digits cs (Some ((case acc of None \<Rightarrow> 0 | Some a \<Rightarrow> a) * 16 + v)))"

definition js_whitespace :: "char \<Rightarrow> bool" where
  "js_whitespace c = ((of_char c :: nat) \<in> {9, 10, 11, 12, 13, 32, 160})"

definition strip_hex_prefix :: "string \<Rightarrow> string" where
  "strip_hex_prefix s =
     (case s of
        c0 # c1 # rest \<Rightarrow> (if c0 = CHR ''0'' \<and> (c1 = CHR ''x'' \<or> c1 = CHR ''X'') then rest else s)
      | _ \<Rightarrow> s)"

definition parseInt16 :: "string \<Rightarrow> int option" where
  "parseInt16 s =
     (let s1 = dropWhile js_whitespace s;
          negative = (case s1 of c # _ \<Rightarrow> c = CHR ''-'' | [] \<Rightarrow> False);
          s2 = (case s1 of c # rest \<Rightarrow> (if c = CHR ''+'' \<or> c = CHR ''-'' then rest else s1) | [] \<Rightarrow> s1);
          s3 = strip_hex_prefix s2
      in case parse_hex_digits s3 None of
           None \<Rightarrow> None
         | Some v \<Rightarrow> Some (if negative then - int v else int v))"

text \<open>Storing a number into a \<open>Uint8Array\<close> cell: \<open>NaN\<close> becomes 0, an integer is
  reduced modulo 256.\<close>
definition toUint8 :: "int option \<Rightarrow> byte" where
  "toUint8 v = (case v of None \<Rightarrow> 0 | Some i \<Rightarrow> word_of_int i)"

definition substr :: "string \<Rightarrow> nat \<Rightarrow> nat \<Rightarrow> string" where
  "substr s start len = take len (drop start s)"

text \<open>\<open>hexToBytes\<close>: \<open>new Uint8Array(hex.length / 2)\<close> truncates the length to an integer.\<close>
definition hexToBytes :: "string \<Rightarrow> bytes" where
  "hexToBytes hex = map (\<lambda>i. toUint8 (parseInt16 (substr hex (i * 2) 2))) [0..<length hex div 2]"

text \<open>
  The platform functions \<open>btoa\<close> and \<open>atob\<close>: base64 with the standard alphabet and
  \<open>=\<close> padding (RFC 4648), decoding by the forgiving-base64 rules of the HTML standard.
  A character of an Isabelle string has a code below 256, so \<open>btoa\<close> never rejects its input.
\<close>
definition b64_alphabet :: string where
  "b64_alphabet = ''ABCDEFGHIJKLMNOPQRSTUVWXYZabcdefghijklmnopqrstuvwxyz0123456789+/''"

definition b64_char :: "nat \<Rightarrow> char" where
  "b64_char n = b64_alphabet ! n"

fun btoa_groups :: "nat list \<Rightarrow> string" where
  "btoa_groups [] = []"
| "btoa_groups [a] =
     [b64_char (a div 4), b64_char ((a mod 4) * 16), CHR ''='', CHR ''='']"
| "btoa_groups [a, b] =
     [b64_char (a div 4), b64_char ((a mod 4) * 16 + b div 16), b64_char ((b mod 16) * 4), CHR ''='']"
| "btoa_groups (a # b # c # rest) =
     [b64_char (a div 4), b64_char ((a mod 4) * 16 + b div 16),
      b64_char ((b mod 16) * 4 + c div 64), b64_char (c mod 64)] @ btoa_groups rest"

definition btoa :: "string \<Rightarrow> string" where
  "btoa s = btoa_groups (map of_char s)"

definition b64_index :: "char \<Rightarrow> nat option" where
  "b64_index c =
     (let n = (of_char c :: nat)
      in if 65 \<le> n \<and> n \<le> 90 then Some (n - 65)
         else if 97 \<le> n \<and> n \<le> 122 then Some (n - 71)
         else if 48 \<le> n \<and> n \<le> 57 then Some (n + 4)
         else if n = 43 then Some 62
         else if n = 47 then Some 63
         else None)"

definition ascii_whitespace :: "char \<Rightarrow> bool" where
  "ascii_whitespace c = ((of_char c :: nat) \<in> {9, 10, 12, 13, 32})"

definition strip_padding :: "string \<Rightarrow> string" where
  "strip_padding d =
     (if d \<noteq> [] \<and> last d = CHR ''=''
      then (let d1 = butlast d in if d1 \<noteq> [] \<and> last d1 = CHR ''='' then butlast d1 else d1)
      else d)"

fun atob_groups :: "nat list \<Rightarrow> nat list" where
  "atob_groups (s0 # s1 # s2 # s3 # rest) =
     [s0 * 4 + s1 div 16, (s1 mod 16) * 16 + s2 div 4, (s2 mod 4) * 64 + s3] @ atob_groups rest"
| "atob_groups [s0, s1, s2] = [s0 * 4 + s1 div 16, (s1 mod 16) * 16 + s2 div 4]"
| "atob_groups [s0, s1] = [s0 * 4 + s1 div 16]"
| "atob_groups _ = []"

definition atob :: "string \<Rightarrow> string option" where
  "atob s =
     (let d = filter (\<lambda>c. \<not> ascii_whitespace c) s;
          d1 = (if length d mod 4 = 0 then strip_padding d else d)
      in if length d1 mod 4 = 1 then None
         else if list_ex (\<lambda>c. b64_index c = None) d1 then None
         else Some (map char_of
                (atob_groups (map (\<lambda>c. case b64_index c of Some v \<Rightarrow> v | None \<Rightarrow> 0) d1))))"

text \<open>\<open>bytesToBase64\<close> builds the binary string with \<open>String.fromCharCode\<close> and calls
  \<open>btoa\<close>; \<open>base64ToBytes\<close> calls \<open>atob\<close> and reads the codes with \<open>charCodeAt\<close>.\<close>
definition bytesToBase64 :: "bytes \<Rightarrow> string" where
  "bytesToBase64 bs = btoa (map (\<lambda>b. char_of (unat b)) bs)"

definition base64ToBytes :: "string \<Rightarrow> js_error + bytes" where
  "base64ToBytes base64 =
     (case atob base64 of
        None \<Rightarrow> Inl (DOMException ''InvalidCharacterError'')
      | Some binary \<Rightarrow> Inr (map (\<lambda>c. of_nat (of_char c)) binary))"

text \<open>Auxiliary for the proofs: the base64 text without its padding.\<close>
fun b64_body :: "nat list \<Rightarrow> string" where
  "b64_body [] = []"
| "b64_body [a] = [b64_char (a div 4), b64_char ((a mod 4) * 16)]"
| "b64_body [a, b] =
     [b64_char (a div 4), b64_char ((a mod 4) * 16 + b div 16), b64_char ((b mod 16) * 4)]"
| "b64_body (a # b # c # rest) =
     [b64_char (a div 4), b64_char ((a mod 4) * 16 + b div 16),
      b64_char ((b mod 16) * 4 + c div 64), b64_char (c mod 64)] @ b64_body rest"

text \<open>Auxiliary for the proofs: a character that \<open>atob\<close> keeps and decodes.\<close>
definition b64_good :: "char \<Rightarrow> bool" where
  "b64_good c = (b64_index c \<noteq> None \<and> \<not> ascii_whitespace c \<and> c \<noteq> CHR ''='')"

section \<open>Public API: password-bundled envelopes\<close>

text \<open>Sizes. \<open>SALT_SIZE\<close> is declared in \<^verbatim>\<open>index.ts\<close>; the table \<open>BYTES\<close> of
  \<^verbatim>\<open>constants.ts\<close> is not among the sources, its entries are the sizes of the 256-bit
  profile (64-byte key, 16-byte nonce, 32-byte block and IV).\<close>
definition SALT_SIZE :: nat where "SALT_SIZE = 16"
definition BYTES_KEY :: nat where "BYTES_KEY = 64"
definition BYTES_NONCE :: nat where "BYTES_NONCE = 16"
definition BYTES_BLOCK :: nat where "BYTES_BLOCK = 32"
definition BYTES_IV :: nat where "BYTES_IV = 32"

datatype KDFLevel = interactive | moderate | sensitive

datatype assoc_data = AdBytes bytes | AdString string

text \<open>
  The collaborators that \<^verbatim>\<open>index.ts\<close> imports: the Argon2id derivation (which returns a
  key and the salt it used), the CTR and AEAD decryption of a cipher object, and the UTF-8
  encoder. They are parameters of the API functions.
\<close>
record collaborators =
  co_deriveKeyArgon2 :: "string \<Rightarrow> bytes option \<Rightarrow> KDFLevel \<Rightarrow> js_error + (bytes \<times> bytes)"
  co_decryptCTR :: "bytes \<Rightarrow> bytes \<Rightarrow> js_error + bytes"
  co_aeadDecrypt :: "bytes \<Rightarrow> bytes \<Rightarrow> bytes option \<Rightarrow> js_error + bytes"
  co_stringToBytes :: "string \<Rightarrow> bytes"

text \<open>What a call has done so far, in order: the salt it cut off the input and the key
  derivations it started.\<close>
datatype api_event = SaltExtracted bytes | KeyDerivation string "bytes option" KDFLevel

text \<open>The constructor of \<open>RandomUniverseCipher\<close> on key bytes; a cipher object is its key.\<close>
definition new_RandomUniverseCipher :: "bytes \<Rightarrow> js_error + bytes" where
  "new_RandomUniverseCipher k =
     (if length k \<noteq> BYTES_KEY then Inl (Error ''Key must be 64 bytes (512 bits)'')
      else Inr k)"

definition fromPasswordAsync ::
  "collaborators \<Rightarrow> string \<Rightarrow> bytes option \<Rightarrow> KDFLevel \<Rightarrow> js_error + (bytes \<times> bytes)" where
  "fromPasswordAsync co password salt level =
     (case co_deriveKeyArgon2 co password salt level of
        Inl e \<Rightarrow> Inl e
      | Inr (k, salt1) \<Rightarrow>
          (case new_RandomUniverseCipher k of
             Inl e \<Rightarrow> Inl e
           | Inr cipher \<Rightarrow> Inr (cipher, salt1)))"

text \<open>\<open>decryptAuthenticated\<close>: an absent or empty-string associated data is
  \<open>undefined\<close>, a string is encoded, bytes are passed on.\<close>
definition decryptAuthenticated ::
  "collaborators \<Rightarrow> bytes \<Rightarrow> bytes \<Rightarrow> assoc_data option \<Rightarrow> js_error + bytes" where
  "decryptAuthenticated co cipher ciphertext associatedData =
     (let ad = (case associatedData of
                  None \<Rightarrow> None
                | Some (AdString s) \<Rightarrow> (if s = [] then None else Some (co_stringToBytes co s))
                | Some (AdBytes b) \<Rightarrow> Some b)
      in co_aeadDecrypt co ciphertext cipher ad)"

definition decryptWithPassword ::
  "collaborators \<Rightarrow> bytes \<Rightarrow> string \<Rightarrow> KDFLevel \<Rightarrow> api_event list \<times> (js_error + bytes)" where
  "decryptWithPassword co ciphertext password level =
     (if length ciphertext < SALT_SIZE + BYTES_NONCE + BYTES_BLOCK
      then ([], Inl (Error ''Ciphertext too short''))
      else
        (let salt = take SALT_SIZE ciphertext;
             encrypted = drop SALT_SIZE ciphertext;
             events = [SaltExtracted salt, KeyDerivation password (Some salt) level]
         in case fromPasswordAsync co password (Some salt) level of
              Inl e \<Rightarrow> (events, Inl e)
            | Inr (cipher, _) \<Rightarrow> (events, co_decryptCTR co encrypted cipher)))"

definition decryptWithPasswordAEAD ::
  "collaborators \<Rightarrow> bytes \<Rightarrow> string \<Rightarrow> assoc_data option \<Rightarrow> KDFLevel
     \<Rightarrow> api_event list \<times> (js_error + bytes)" where
  "decryptWithPasswordAEAD co ciphertext password associatedData level =
     (if length ciphertext < SALT_SIZE + BYTES_NONCE + BYTES_BLOCK + 32
      then ([], Inl (Error ''Ciphertext too short''))
      else
        (let salt = take SALT_SIZE ciphertext;
             encrypted = drop SALT_SIZE ciphertext;
             events = [SaltExtracted salt, KeyDerivation password (Some salt) level]
         in case fromPasswordAsync co password (Some salt) level of
              Inl e \<Rightarrow> (events, Inl e)
            | Inr (cipher, _) \<Rightarrow> (events, decryptAuthenticated co cipher encrypted associatedData)))"

text \<open>Collaborators that always fail, for closed instances of the theorems.\<close>
definition failing_collaborators :: collaborators where
  "failing_collaborators =
     \<lparr>co_deriveKeyArgon2 = (\<lambda>password salt level. Inl (Error ''unavailable'')),
      co_decryptCTR = (\<lambda>ciphertext k. Inl (Error ''unavailable'')),
      co_aeadDecrypt = (\<lambda>ciphertext k ad. Inl (Error ''unavailable'')),
      co_stringToBytes = (\<lambda>s. map of_char s)\<rparr>"

section \<open>Properties of the GF(2^8) arithmetic\<close>

lemma byte_and_FF: "(x :: byte) AND 0xFF = x"
proof -
  have "(0xFF :: byte) = - 1" by simp
  then show ?thesis by (simp only: and.right_neutral word_bw_comms word_and_max flip: )
qed

lemma high_bit_iff: "((a :: byte) AND 0x80 \<noteq> 0) = bit a 7"
proof -
  have "(0x80 :: byte) = push_bit 7 1" by simp
  then show ?thesis
    by (metis and_exp_eq_0_iff_not_bit push_bit_of_1)
qed

lemma low_bit_iff: "((b :: byte) AND 1 \<noteq> 0) = bit b 0"
  by (simp add: and_one_eq bit_0 mod_2_eq_odd)

lemma gf_mul_loop_Suc: "gf_mul_loop (Suc n) a b r =
   gf_mul_loop n (xtime a) (drop_bit 1 b) (if bit b 0 then r XOR a else r)"
  by (simp add: xtime_def Let_def byte_and_FF high_bit_iff low_bit_iff)

lemma gf_mul_loop_sum: "gf_mul_loop n a b r = r XOR gf_sum n a b"
proof (induction n arbitrary: a b r)
  case 0
  show ?case by simp
next
  case (Suc n)
  show ?case
    unfolding gf_mul_loop_Suc gf_sum.simps Suc.IH
    by (simp add: ac_simps)
qed

lemma GF_MUL_sum: "GF_MUL a b = gf_sum 8 a b"
  by (simp add: GF_MUL_def gf_mul_loop_sum)

lemma xtime_xor: "xtime (a XOR b) = xtime a XOR xtime b"
  by (simp add: xtime_def bit_xor_iff ac_simps)

lemma xtime_0: "xtime 0 = 0"
  by (simp add: xtime_def)

lemma xtime_pow_0: "(xtime ^^ k) 0 = 0"
  by (induction k) (simp_all add: xtime_0)

lemma xtime_pow_xor: "(xtime ^^ k) (a XOR b) = (xtime ^^ k) a XOR (xtime ^^ k) b"
  by (induction k) (simp_all add: xtime_xor)

lemma gf_sum_zero_right: "gf_sum n a 0 = 0"
  by (induction n arbitrary: a) simp_all

lemma gf_sum_zero_left: "gf_sum n 0 b = 0"
  by (induction n arbitrary: b) (simp_all add: xtime_0)

lemma gf_sum_xor_left: "gf_sum n (a XOR a') b = gf_sum n a b XOR gf_sum n a' b"
  by (induction n arbitrary: a a' b) (simp_all add: xtime_xor ac_simps)

lemma gf_sum_xor_right: "gf_sum n a (b XOR b') = gf_sum n a b XOR gf_sum n a b'"
proof (induction n arbitrary: a b b')
  case 0
  show ?case by simp
next
  case (Suc n)
  have d: "drop_bit 1 (b XOR b') = drop_bit 1 b XOR drop_bit 1 b'"
    by (simp add: drop_bit_xor)
  show ?case
    unfolding gf_sum.simps d Suc.IH
    by (simp add: bit_xor_iff ac_simps)
qed

lemma gf_sum_xtime_left: "gf_sum n (xtime a) b = xtime (gf_sum n a b)"
  by (induction n arbitrary: a b) (simp_all add: xtime_xor xtime_0)

lemma gf_sum_pow2: "j < n \<Longrightarrow> n \<le> 8 \<Longrightarrow> gf_sum n a (2 ^ j) = (xtime ^^ j) a"
proof (induction n arbitrary: a j)
  case 0
  then show ?case by simp
next
  case (Suc n)
  show ?case
  proof (cases j)
    case 0
    then show ?thesis by (simp add: gf_sum_zero_right)
  next
    case (Suc j')
    have b0: "\<not> bit ((2::byte) ^ Suc j') 0"
      by (simp add: bit_0)
    have "Suc j' < 8" using Suc.prems Suc by simp
    then have dr: "drop_bit 1 ((2::byte) ^ Suc j') = 2 ^ j'"
      by (intro bit_eqI) (auto simp add: bit_simps)
    have "gf_sum n (xtime a) (2 ^ j') = (xtime ^^ j') (xtime a)"
      using Suc.prems Suc by (intro Suc.IH) simp_all
    then show ?thesis
      unfolding Suc gf_sum.simps dr using b0
      by (simp add: funpow_swap1)
  qed
qed

lemma take_bit_Suc_xor:
  "take_bit (Suc n) (b :: byte) = take_bit n b XOR (if bit b n then 2 ^ n else 0)"
  by (rule bit_eqI) (auto simp add: bit_simps less_Suc_eq)

lemma byte_xor_induct [case_names zero pow2 xor]:
  assumes z: "P 0"
    and p: "\<And>i. i < 8 \<Longrightarrow> P (2 ^ i)"
    and x: "\<And>a b. P a \<Longrightarrow> P b \<Longrightarrow> P (a XOR b)"
  shows "P (b :: byte)"
proof -
  have "n \<le> 8 \<Longrightarrow> P (take_bit n b)" for n
  proof (induction n)
    case 0
    show ?case using z by simp
  next
    case (Suc n)
    then have "P (take_bit n b)" by simp
    moreover have "P (if bit b n then 2 ^ n else 0)"
      using z p Suc.prems by simp
    ultimately show ?case
      unfolding take_bit_Suc_xor by (rule x)
  qed
  from this [of 8] show ?thesis by (simp add: take_bit_word_eq_self)
qed

lemma xtime_pow_one: "i < 8 \<Longrightarrow> (xtime ^^ i) 1 = 2 ^ i"
proof (induction i)
  case 0
  show ?case by simp
next
  case (Suc i)
  then have ih: "(xtime ^^ i) 1 = 2 ^ i" by simp
  have nb: "\<not> bit ((2::byte) ^ i) 7"
    using Suc.prems by (simp add: bit_simps)
  have "(xtime ^^ Suc i) 1 = xtime (2 ^ i)"
    by (simp add: ih)
  also have "\<dots> = push_bit 1 (2 ^ i)"
    using nb by (simp only: xtime_def if_False)
  also have "\<dots> = 2 ^ Suc i"
    by (simp add: push_bit_eq_mult)
  finally show ?case .
qed

lemma xtime_pow_pow2: "i < 8 \<Longrightarrow> j < 8 \<Longrightarrow> (xtime ^^ j) (2 ^ i) = (xtime ^^ i) (2 ^ j)"
  by (simp add: add.commute flip: xtime_pow_one funpow_add [THEN fun_cong, unfolded o_def])

lemma gf_mul_pow2_left: "i < 8 \<Longrightarrow> GF_MUL (2 ^ i) b = (xtime ^^ i) b"
proof (induction b rule: byte_xor_induct)
  case zero
  show ?case by (simp add: GF_MUL_sum gf_sum_zero_right xtime_pow_0)
next
  case (pow2 j)
  then show ?case
    by (simp add: GF_MUL_sum gf_sum_pow2 xtime_pow_pow2)
next
  case (xor a b)
  then show ?case
    by (simp add: GF_MUL_sum gf_sum_xor_right xtime_pow_xor)
qed

lemma gf_mul_comm: "GF_MUL a b = GF_MUL b a"
proof (induction a rule: byte_xor_induct)
  case zero
  show ?case by (simp add: GF_MUL_sum gf_sum_zero_right gf_sum_zero_left)
next
  case (pow2 i)
  then show ?case
    by (simp add: gf_mul_pow2_left) (simp add: GF_MUL_sum gf_sum_pow2)
next
  case (xor a a')
  then show ?case
    by (simp add: GF_MUL_sum gf_sum_xor_right gf_sum_xor_left)
qed

lemma gf_mul_xtime_right: "GF_MUL a (xtime b) = xtime (GF_MUL a b)"
  by (metis gf_mul_comm GF_MUL_sum gf_sum_xtime_left)

lemma gf_mul_xtime_pow_right: "GF_MUL a ((xtime ^^ k) b) = (xtime ^^ k) (GF_MUL a b)"
  by (induction k) (simp_all add: gf_mul_xtime_right)

lemma gf_mul_assoc: "GF_MUL (GF_MUL a b) c = GF_MUL a (GF_MUL b c)"
proof (induction c rule: byte_xor_induct)
  case zero
  show ?case by (simp add: GF_MUL_sum gf_sum_zero_right)
next
  case (pow2 k)
  then show ?case
    by (simp add: GF_MUL_sum gf_sum_pow2) (simp add: gf_mul_xtime_pow_right flip: GF_MUL_sum)
next
  case (xor c c')
  then show ?case
    by (simp add: GF_MUL_sum gf_sum_xor_right)
qed

lemma gf_mul_one: "GF_MUL x 1 = x"
  using gf_sum_pow2 [of 0 8 x] by (simp add: GF_MUL_sum)

lemma gf_mul_zero: "GF_MUL x 0 = 0"
  by (simp add: GF_MUL_sum gf_sum_zero_right)

lemma pows_numeral: "pows (numeral k) x = x # pows (pred_numeral k) (mul3 x)"
  by (simp add: numeral_eq_Suc)

lemma mul3_numeral: "mul3 (numeral k) = numeral k XOR xtime (numeral k)" "mul3 1 = 3"
  by (simp_all add: mul3_def xtime_def)

lemma xtime_numeral: "xtime (numeral k) = (if bit (numeral k :: byte) 7 then push_bit 1 (numeral k) XOR 0x1B else push_bit 1 (numeral k))"
  by (simp add: xtime_def POLY_def)

lemma pows_distinct: "distinct (map unat (pows 255 1))"
  by (simp add: pows_numeral mul3_numeral xtime_numeral)

lemma pows_nonzero: "0 \<notin> set (pows 255 1)"
  by (simp add: pows_numeral mul3_numeral xtime_numeral)

lemma pows_cycle: "mul3 (pows 255 1 ! 254) = 1"
  by (simp add: pows_numeral mul3_numeral xtime_numeral)


lemma gf_mul_one_left: "GF_MUL 1 x = x"
  by (simp add: gf_mul_comm [of 1 x] gf_mul_one)

lemma gf_pow_add: "gf_pow a (m + n) = GF_MUL (gf_pow a m) (gf_pow a n)"
  by (induction m) (simp_all add: gf_mul_one_left gf_mul_assoc)

lemma gf_pow_one_base: "gf_pow 1 n = 1"
  by (induction n) (simp_all add: gf_mul_one)

lemma gf_pow_mult: "gf_pow (gf_pow a m) n = gf_pow a (m * n)"
  by (induction n) (simp_all add: gf_pow_add)

lemma gf_mul_three: "GF_MUL 3 a = mul3 a"
proof -
  have "(3 :: byte) = 2 ^ 0 XOR 2 ^ 1" by simp
  then have "GF_MUL a 3 = gf_sum 8 a (2 ^ 0) XOR gf_sum 8 a (2 ^ 1)"
    by (simp only: GF_MUL_sum gf_sum_xor_right)
  also have "\<dots> = a XOR xtime a"
    by (simp only: gf_sum_pow2) simp
  finally show ?thesis
    by (simp add: gf_mul_comm [of 3 a] mul3_def)
qed

lemma gf_pow_three: "gf_pow 3 k = (mul3 ^^ k) 1"
  by (induction k) (simp_all add: gf_mul_three)

lemma pows_nth: "i < n \<Longrightarrow> pows n x ! i = (mul3 ^^ i) x"
proof (induction n arbitrary: i x)
  case 0
  then show ?case by simp
next
  case (Suc n)
  then show ?case
    by (cases i) (simp_all add: funpow_swap1)
qed

lemma length_pows: "length (pows n x) = n"
  by (induction n arbitrary: x) simp_all

lemma set_pows: "set (pows 255 1) = UNIV - {0}"
proof (rule card_subset_eq)
  show "finite (UNIV - {0} :: byte set)" by simp
  show "set (pows 255 1) \<subseteq> UNIV - {0}"
    using pows_nonzero by auto
  have "distinct (pows 255 1)"
    using pows_distinct by (simp add: distinct_map)
  then have "card (set (pows 255 1)) = 255"
    by (simp add: distinct_card length_pows)
  moreover have "card (UNIV - {0} :: byte set) = 255"
    by (simp add: card_Diff_singleton card_word)
  ultimately show "card (set (pows 255 1)) = card (UNIV - {0} :: byte set)"
    by simp
qed

lemma nonzero_is_power: "x \<noteq> 0 \<Longrightarrow> \<exists>k. x = gf_pow 3 k"
proof -
  assume "x \<noteq> 0"
  then have "x \<in> set (pows 255 1)"
    by (simp add: set_pows)
  then obtain i where "i < 255" "pows 255 1 ! i = x"
    by (auto simp add: in_set_conv_nth length_pows)
  then have "x = gf_pow 3 i"
    by (simp add: pows_nth gf_pow_three)
  then show ?thesis ..
qed

lemma gf_pow_three_255: "gf_pow 3 255 = 1"
proof -
  have "gf_pow 3 (Suc 254) = mul3 ((mul3 ^^ 254) 1)"
    by (simp only: gf_pow_three funpow.simps o_apply)
  also have "(mul3 ^^ 254) 1 = pows 255 1 ! 254"
    by (rule pows_nth [symmetric]) simp
  finally show ?thesis
    by (simp only: pows_cycle) simp
qed

lemma gf_fermat: "x \<noteq> 0 \<Longrightarrow> gf_pow x 255 = 1"
proof -
  assume "x \<noteq> 0"
  then obtain k where "x = gf_pow 3 k"
    using nonzero_is_power by blast
  then have "gf_pow x 255 = gf_pow (gf_pow 3 255) k"
    by (simp add: gf_pow_mult mult.commute)
  then show ?thesis
    by (simp add: gf_pow_three_255 gf_pow_one_base)
qed

text \<open>
  Claim C7. Multiplication in GF(2^8) with the polynomial 0x11B has 1 as identity, 0 as
  absorbing element, is commutative and associative, and every non-zero byte raised to the
  power 255 is 1.
\<close>

theorem gf_laws:
  "GF_MUL x 1 = x \<and> GF_MUL x 0 = 0 \<and> GF_MUL a b = GF_MUL b a \<and>
   GF_MUL (GF_MUL a b) c = GF_MUL a (GF_MUL b c) \<and> (x \<noteq> 0 \<longrightarrow> gf_pow x 255 = 1)"
  using gf_mul_one gf_mul_zero gf_mul_comm gf_mul_assoc gf_fermat by blast

theorem gf_laws_witness:
  "(0x57 :: byte) \<noteq> 0 \<and> gf_pow 0x57 255 = 1 \<and> GF_MUL 0x57 1 = 0x57 \<and> GF_MUL 0x57 0 = 0 \<and>
   GF_MUL 0x57 0x83 = GF_MUL 0x83 0x57 \<and>
   GF_MUL (GF_MUL 0x57 0x83) 0x13 = GF_MUL 0x57 (GF_MUL 0x83 0x13)"
proof -
  have nz: "(0x57 :: byte) \<noteq> 0" by simp
  from gf_laws [of "0x57" "0x57" "0x83" "0x13"] nz show ?thesis by blast
qed

section \<open>Properties of the S-box generator\<close>

subsection \<open>Exchanges and shuffles keep the multiset\<close>

lemma length_swap: "length (swap xs i j) = length xs"
  by (simp add: swap_def Let_def)

lemma mset_swap_cells: "i < length xs \<Longrightarrow> j < length xs \<Longrightarrow> mset (swap xs i j) = mset xs"
  by (simp add: swap_def Let_def mset_swap)

lemma swap_same: "swap xs i i = xs"
  by (simp add: swap_def Let_def)

lemma fisher_yates_sbox_Suc:
  "fisher_yates_sbox (Suc n) seed sbox =
     fisher_yates_sbox n seed (swap sbox (Suc n)
        ((push_bit 8 (unat (seed ! (2 * (255 - Suc n)))) OR unat (seed ! (2 * (255 - Suc n) + 1)))
           mod (Suc n + 1)))"
  by (simp only: fisher_yates_sbox.simps Let_def)

lemma draw_in_range: "Suc n < len \<Longrightarrow> (x :: nat) mod (Suc n + 1) < len"
proof -
  assume "Suc n < len"
  moreover have "x mod (Suc n + 1) < Suc n + 1"
    by (rule mod_less_divisor) simp
  ultimately show ?thesis by linarith
qed

lemma fisher_yates_sbox_mset:
  "n < length sbox \<Longrightarrow>
     mset (fisher_yates_sbox n seed sbox) = mset sbox \<and>
     length (fisher_yates_sbox n seed sbox) = length sbox"
proof (induction n arbitrary: sbox)
  case 0
  show ?case by simp
next
  case (Suc n)
  define j where "j = (push_bit 8 (unat (seed ! (2 * (255 - Suc n)))) OR
             unat (seed ! (2 * (255 - Suc n) + 1))) mod (Suc n + 1)"
  have j: "j < length sbox"
    unfolding j_def using Suc.prems by (rule draw_in_range)
  have "n < length (swap sbox (Suc n) j)"
    using Suc.prems by (simp add: length_swap)
  from Suc.IH [OF this] show ?case
    unfolding fisher_yates_sbox_Suc j_def [symmetric]
    using Suc.prems j by (simp add: length_swap mset_swap_cells)
qed

lemma length_identity_sbox: "length identity_sbox = 256"
  by (simp only: identity_sbox_def length_map length_upt)

lemma shuffle_identity_mset: "mset (shuffle_identity p K ds) = mset identity_sbox"
  unfolding shuffle_identity_def Let_def
  by (rule fisher_yates_sbox_mset [THEN conjunct1]) (simp add: length_identity_sbox)

lemma sbox_candidate_mset: "mset (sbox_candidate p K r t) = mset identity_sbox"
  by (simp add: sbox_candidate_def regenerate_with_new_seed_def shuffle_identity_mset)


subsection \<open>The retry loop\<close>

lemma retry_candidate:
  "0 < retry \<Longrightarrow>
   regenerate_with_new_seed p K (ascii ''RUC-SBOX'' @ int_to_bytes round 2 @ int_to_bytes retry 2)
     = sbox_candidate p K round retry"
  by (simp add: sbox_candidate_def)

lemma retry_loop_Suc:
  "0 < retry \<Longrightarrow>
   retry_loop p K round retry (Suc n) sbox =
     (if verify_sbox_properties (sbox_candidate p K round retry)
      then sbox_candidate p K round retry
      else retry_loop p K round (Suc retry) n (sbox_candidate p K round retry))"
  by (simp add: Let_def retry_candidate)

lemma retry_loop_0: "retry_loop p K round retry 0 sbox = sbox"
  by simp

declare retry_loop.simps [simp del]

lemma retry_loop_exhausted:
  "0 < retry \<Longrightarrow> 0 < n \<Longrightarrow>
   (\<And>t. retry \<le> t \<Longrightarrow> t < retry + n \<Longrightarrow> \<not> verify_sbox_properties (sbox_candidate p K round t)) \<Longrightarrow>
   retry_loop p K round retry n sbox = sbox_candidate p K round (retry + n - 1)"
proof (induction n arbitrary: retry sbox)
  case 0
  then show ?case by simp
next
  case (Suc n)
  have first: "\<not> verify_sbox_properties (sbox_candidate p K round retry)"
    using Suc.prems by simp
  show ?case
  proof (cases n)
    case 0
    then show ?thesis
      using first Suc.prems(1) by (simp add: retry_loop_Suc retry_loop_0)
  next
    case (Suc m)
    have "retry_loop p K round (Suc retry) n (sbox_candidate p K round retry)
            = sbox_candidate p K round (Suc retry + n - 1)"
      using Suc Suc.prems by (intro Suc.IH) simp_all
    then show ?thesis
      using first Suc.prems(1) by (simp add: retry_loop_Suc retry_loop_0)
  qed
qed

lemma retry_loop_accepts:
  "0 < retry \<Longrightarrow> retry \<le> t \<Longrightarrow> t < retry + n \<Longrightarrow>
   verify_sbox_properties (sbox_candidate p K round t) \<Longrightarrow>
   verify_sbox_properties (retry_loop p K round retry n sbox)"
proof (induction n arbitrary: retry sbox)
  case 0
  then show ?case by simp
next
  case (Suc n)
  show ?case
  proof (cases "verify_sbox_properties (sbox_candidate p K round retry)")
    case True
    then show ?thesis
      using Suc.prems(1) by (simp add: retry_loop_Suc retry_loop_0)
  next
    case False
    then have "retry \<noteq> t" using Suc.prems by auto
    then have "verify_sbox_properties
                 (retry_loop p K round (Suc retry) n (sbox_candidate p K round retry))"
      using Suc.prems by (intro Suc.IH) simp_all
    then show ?thesis
      using False Suc.prems(1) by (simp add: retry_loop_Suc retry_loop_0)
  qed
qed

lemma retry_loop_is_candidate:
  "0 < retry \<Longrightarrow> 0 < n \<Longrightarrow>
   \<exists>t. retry \<le> t \<and> t < retry + n \<and> retry_loop p K round retry n sbox = sbox_candidate p K round t"
proof (induction n arbitrary: retry sbox)
  case 0
  then show ?case by simp
next
  case (Suc n)
  show ?case
  proof (cases "verify_sbox_properties (sbox_candidate p K round retry) \<or> n = 0")
    case True
    then have "retry_loop p K round retry (Suc n) sbox = sbox_candidate p K round retry"
      using Suc.prems(1) by (auto simp add: retry_loop_Suc retry_loop_0)
    then show ?thesis by (intro exI [of _ retry]) simp
  next
    case False
    then have "0 < n" by simp
    then obtain t where t: "Suc retry \<le> t" "t < Suc retry + n"
      "retry_loop p K round (Suc retry) n (sbox_candidate p K round retry) = sbox_candidate p K round t"
      using Suc.IH [of "Suc retry" "sbox_candidate p K round retry"] by auto
    have "retry_loop p K round retry (Suc n) sbox = sbox_candidate p K round t"
      using False Suc.prems(1) t(3) by (simp add: retry_loop_Suc retry_loop_0)
    then show ?thesis
      using t(1,2) by (intro exI [of _ t]) simp
  qed
qed

lemma generate_sbox_unfold:
  "generate_sbox p K round =
     (if verify_sbox_properties (sbox_candidate p K round 0) then sbox_candidate p K round 0
      else retry_loop p K round 1 100 (sbox_candidate p K round 0))"
  by (simp add: generate_sbox_def sbox_candidate_def Let_def)

lemma generate_sbox_is_candidate:
  "\<exists>t\<le>100. generate_sbox p K round = sbox_candidate p K round t"
proof (cases "verify_sbox_properties (sbox_candidate p K round 0)")
  case True
  then have "generate_sbox p K round = sbox_candidate p K round 0"
    by (simp add: generate_sbox_unfold)
  then show ?thesis by blast
next
  case False
  have "\<exists>t. 1 \<le> t \<and> t < 1 + 100 \<and>
    retry_loop p K round 1 100 (sbox_candidate p K round 0) = sbox_candidate p K round t"
    by (rule retry_loop_is_candidate) simp_all
  then obtain t where t: "1 \<le> t" "t < 1 + 100"
    "retry_loop p K round 1 100 (sbox_candidate p K round 0) = sbox_candidate p K round t"
    by blast
  have "t \<le> 100" using t(2) by simp
  moreover have "generate_sbox p K round = sbox_candidate p K round t"
    using False t(3) by (simp only: generate_sbox_unfold if_False)
  ultimately show ?thesis by blast
qed

lemma generate_sbox_exhausted:
  assumes "\<And>t. t \<le> 100 \<Longrightarrow> \<not> verify_sbox_properties (sbox_candidate p K round t)"
  shows "generate_sbox p K round = sbox_candidate p K round 100"
proof -
  have "retry_loop p K round 1 100 (sbox_candidate p K round 0) = sbox_candidate p K round (1 + 100 - 1)"
    using assms by (intro retry_loop_exhausted) simp_all
  then show ?thesis
    using assms [of 0] by (simp add: generate_sbox_unfold)
qed

lemma generate_sbox_accepts:
  assumes "t \<le> 100" "verify_sbox_properties (sbox_candidate p K round t)"
  shows "verify_sbox_properties (generate_sbox p K round)"
proof (cases "verify_sbox_properties (sbox_candidate p K round 0)")
  case True
  then show ?thesis
    by (simp add: generate_sbox_unfold)
next
  case False
  have "t \<noteq> 0"
  proof
    assume "t = 0"
    with assms(2) False show False by simp
  qed
  then have "1 \<le> t" "t < 1 + 100" using assms(1) by simp_all
  then have "verify_sbox_properties (retry_loop p K round 1 100 (sbox_candidate p K round 0))"
    using assms(2) by (intro retry_loop_accepts [of 1 t]) simp_all
  then show ?thesis
    using False by (simp add: generate_sbox_unfold)
qed

lemma generate_sbox_verified_iff:
  "verify_sbox_properties (generate_sbox p K round)
     = list_ex (\<lambda>t. verify_sbox_properties (sbox_candidate p K round t)) [0..<101]"
proof -
  have "verify_sbox_properties (generate_sbox p K round)
          \<longleftrightarrow> (\<exists>t\<le>100. verify_sbox_properties (sbox_candidate p K round t))"
  proof
    assume v: "verify_sbox_properties (generate_sbox p K round)"
    obtain t where "t \<le> 100" "generate_sbox p K round = sbox_candidate p K round t"
      using generate_sbox_is_candidate by blast
    with v show "\<exists>t\<le>100. verify_sbox_properties (sbox_candidate p K round t)"
      by auto
  next
    assume "\<exists>t\<le>100. verify_sbox_properties (sbox_candidate p K round t)"
    then show "verify_sbox_properties (generate_sbox p K round)"
      using generate_sbox_accepts by blast
  qed
  also have "(\<exists>t\<le>100. verify_sbox_properties (sbox_candidate p K round t))
     \<longleftrightarrow> (\<exists>t\<in>set [0..<101]. verify_sbox_properties (sbox_candidate p K round t))"
  proof -
    have eq: "\<And>t::nat. (0 \<le> t \<and> t < 101) = (t \<le> 100)" by arith
    show ?thesis
      by (simp only: set_upt atLeastLessThan_iff Bex_def eq)
  qed
  finally show ?thesis
    by (simp only: list_ex_iff)
qed

subsection \<open>The bijectivity scan\<close>

lemma unat_byte_less: "unat (b :: byte) < 256"
  using unsigned_less [of b] by simp

lemma unat_of_nat_byte: "n < 256 \<Longrightarrow> unat (of_nat n :: byte) = n"
  by (simp add: unat_of_nat)

lemma seen_scan_iff:
  "length seen = 256 \<Longrightarrow>
   seen_scan sbox idxs seen =
     (distinct (map (\<lambda>i. unat (sbox ! i)) idxs) \<and> (\<forall>i\<in>set idxs. \<not> seen ! unat (sbox ! i)))"
proof (induction idxs arbitrary: seen)
  case Nil
  show ?case by simp
next
  case (Cons i rest)
  have bound: "\<And>b :: byte. unat b < length seen"
    using Cons.prems by (simp add: unat_byte_less)
  show ?case
  proof (cases "seen ! unat (sbox ! i)")
    case True
    then show ?thesis by simp
  next
    case False
    have "length (seen[unat (sbox ! i) := True]) = 256"
      using Cons.prems by simp
    from Cons.IH [OF this] False bound show ?thesis
      by (auto simp add: nth_list_update)
  qed
qed

lemma distinct_identity_sbox: "distinct identity_sbox"
proof -
  have "inj_on (of_nat :: nat \<Rightarrow> byte) {0..<256}"
  proof (rule inj_onI)
    fix x y :: nat
    assume "x \<in> {0..<256}" "y \<in> {0..<256}" "(of_nat x :: byte) = of_nat y"
    then have "unat (of_nat x :: byte) = unat (of_nat y :: byte)" by simp
    moreover have "unat (of_nat x :: byte) = x" "unat (of_nat y :: byte) = y"
      using \<open>x \<in> {0..<256}\<close> \<open>y \<in> {0..<256}\<close> by (simp_all add: unat_of_nat_byte)
    ultimately show "x = y" by simp
  qed
  then show ?thesis
    by (simp only: identity_sbox_def distinct_map distinct_upt set_upt)
qed

lemma seen_scan_permutation:
  assumes "mset sbox = mset identity_sbox"
  shows "seen_scan sbox [0..<256] (replicate 256 False)"
proof -
  have len: "length sbox = 256"
    using assms length_identity_sbox by (metis size_mset)
  have "distinct sbox"
    using assms distinct_identity_sbox by (metis mset_eq_imp_distinct_iff)
  then have "distinct (map unat sbox)"
    by (simp add: distinct_map inj_on_def word_unat_eq_iff)
  moreover have "map (\<lambda>i. unat (sbox ! i)) [0..<256] = map unat sbox"
    using len by (intro nth_equalityI) (simp_all del: upt_rec_numeral)
  ultimately show ?thesis
    by (simp add: seen_scan_iff unat_byte_less del: upt_rec_numeral)
qed

lemma verify_permutation:
  "mset sbox = mset identity_sbox \<Longrightarrow> verify_sbox_properties sbox = strict_bounds sbox"
  by (auto simp add: verify_sbox_properties_def strict_bounds_def seen_scan_permutation
      simp del: upt_rec_numeral)

subsection \<open>A lower bound on the differential uniformity\<close>

lemma fold_max_step_ge: "m \<le> fold max_step cs (m :: nat)"
proof (induction cs arbitrary: m)
  case Nil
  show ?case by simp
next
  case (Cons c cs)
  have "m \<le> max_step c m" by (simp add: max_step_def)
  also have "\<dots> \<le> fold max_step cs (max_step c m)" by (rule Cons.IH)
  finally show ?case by simp
qed

lemma fold_max_step_elem: "c \<in> set cs \<Longrightarrow> c \<le> fold max_step cs (m :: nat)"
proof (induction cs arbitrary: m)
  case Nil
  then show ?case by simp
next
  case (Cons d cs)
  show ?case
  proof (cases "c = d")
    case True
    have "c \<le> max_step d m" using True by (simp add: max_step_def)
    also have "\<dots> \<le> fold max_step cs (max_step d m)" by (rule fold_max_step_ge)
    finally show ?thesis by simp
  next
    case False
    then have "c \<in> set cs" using Cons.prems by simp
    then show ?thesis using Cons.IH by simp
  qed
qed

lemma fold_rows_ge:
  "m \<le> fold (\<lambda>a mc. fold max_step (row a) mc) as (m :: nat)"
proof (induction as arbitrary: m)
  case Nil
  show ?case by simp
next
  case (Cons a as)
  have "m \<le> fold max_step (row a) m" by (rule fold_max_step_ge)
  also have "\<dots> \<le> fold (\<lambda>a mc. fold max_step (row a) mc) as (fold max_step (row a) m)"
    by (rule Cons.IH)
  finally show ?case by simp
qed

lemma fold_rows_elem:
  "a \<in> set as \<Longrightarrow> c \<in> set (row a) \<Longrightarrow>
     c \<le> fold (\<lambda>a mc. fold max_step (row a) mc) as (m :: nat)"
proof (induction as arbitrary: m)
  case Nil
  then show ?case by simp
next
  case (Cons b as)
  show ?case
  proof (cases "a = b")
    case True
    have "c \<le> fold max_step (row b) m"
      using True Cons.prems(2) by (simp add: fold_max_step_elem)
    also have "\<dots> \<le> fold (\<lambda>a mc. fold max_step (row a) mc) as (fold max_step (row b) m)"
      by (rule fold_rows_ge)
    finally show ?thesis by simp
  next
    case False
    then have "a \<in> set as" using Cons.prems by simp
    then show ?thesis using Cons.IH Cons.prems(2) by simp
  qed
qed

lemma differential_uniformity_ge:
  assumes "0 < a" "a < 256" "d < length (ddt_row sbox a)"
  shows "ddt_row sbox a ! d \<le> compute_differential_uniformity sbox"
proof -
  have "a \<in> set [1..<256]" using assms by (simp del: upt_rec_numeral)
  moreover have "ddt_row sbox a ! d \<in> set (ddt_row sbox a)"
    using assms(3) by simp
  ultimately show ?thesis
    unfolding compute_differential_uniformity_def by (rule fold_rows_elem)
qed

lemma ddt_row_constant_aux:
  assumes "\<And>x. x < n \<Longrightarrow> f x = d" "d < 256"
  shows "fold (\<lambda>x counts. let output_diff = f x in counts[output_diff := counts ! output_diff + 1])
           [0..<n] (replicate 256 0) = (replicate 256 (0::nat))[d := n]"
  using assms(1)
proof (induction n)
  case 0
  have "(replicate 256 (0::nat))[d := 0] = replicate 256 0"
    using assms(2) by (intro nth_equalityI) (simp_all add: nth_list_update)
  then show ?case by simp
next
  case (Suc n)
  then have "fold (\<lambda>x counts. let output_diff = f x in counts[output_diff := counts ! output_diff + 1])
           [0..<n] (replicate 256 0) = (replicate 256 (0::nat))[d := n]"
    by simp
  moreover have "f n = d" using Suc.prems by simp
  ultimately show ?case
    using assms(2) by (simp add: Let_def)
qed

lemma ddt_row_constant:
  assumes "\<And>x. x < 256 \<Longrightarrow> unat (sbox ! x XOR sbox ! (x XOR a)) = d" "d < 256"
  shows "ddt_row sbox a = (replicate 256 0)[d := 256]"
  unfolding ddt_row_def using assms by (rule ddt_row_constant_aux)

subsection \<open>The identity table fails the strict bounds\<close>

lemma identity_sbox_nth: "x < 256 \<Longrightarrow> identity_sbox ! x = of_nat x"
  by (simp add: identity_sbox_def del: upt_rec_numeral)

lemma xor_nat_less_256: "x < 256 \<Longrightarrow> a < 256 \<Longrightarrow> x XOR a < (256::nat)"
proof -
  assume "x < 256" "a < 256"
  then have "take_bit 8 x = x" "take_bit 8 a = a"
    by (simp_all add: take_bit_nat_eq_self_iff)
  then have "x XOR a = take_bit 8 (x XOR a)"
    by (simp add: take_bit_xor)
  also have "\<dots> < 2 ^ 8"
    by (rule take_bit_nat_less_exp)
  finally show ?thesis by simp
qed

lemma identity_sbox_ddt: "ddt_row identity_sbox 128 = (replicate 256 0)[128 := 256]"
proof (rule ddt_row_constant)
  fix x :: nat
  assume x: "x < 256"
  then have x2: "x XOR 128 < 256" by (rule xor_nat_less_256) simp
  have "identity_sbox ! x XOR identity_sbox ! (x XOR 128) = (of_nat x XOR of_nat (x XOR 128) :: byte)"
    using x x2 by (simp only: identity_sbox_nth)
  also have "\<dots> = of_nat (x XOR (x XOR 128))"
    by (simp only: of_nat_xor_eq)
  also have "x XOR (x XOR 128) = 128"
    by (simp add: xor.assoc [symmetric])
  finally show "unat (identity_sbox ! x XOR identity_sbox ! (x XOR 128)) = 128"
    by simp
qed simp

lemma identity_sbox_uniformity: "256 \<le> compute_differential_uniformity identity_sbox"
proof -
  have "ddt_row identity_sbox 128 ! 128 \<le> compute_differential_uniformity identity_sbox"
    by (rule differential_uniformity_ge) (simp_all add: identity_sbox_ddt)
  then show ?thesis
    by (simp add: identity_sbox_ddt)
qed

lemma identity_sbox_rejected: "\<not> verify_sbox_properties identity_sbox"
  using identity_sbox_uniformity by (simp add: verify_sbox_properties_def del: upt_rec_numeral)

lemma identity_sbox_not_strict: "\<not> strict_bounds identity_sbox"
  using identity_sbox_uniformity by (simp add: strict_bounds_def)

subsection \<open>The ramp stream draws every position itself\<close>

lemma SHAKE256_nth: "i < len \<Longrightarrow> SHAKE256 p data len ! i = xof_byte p data i"
  by (simp add: SHAKE256_def)

lemma fisher_yates_ramp:
  "n \<le> 255 \<Longrightarrow> fisher_yates_sbox n (SHAKE256 ramp_prims data 512) sbox = sbox"
proof (induction n arbitrary: sbox)
  case 0
  show ?case by simp
next
  case (Suc n)
  have lo: "SHAKE256 ramp_prims data 512 ! (2 * (255 - Suc n)) = 0"
    using Suc.prems by (simp add: SHAKE256_nth ramp_prims_def)
  have "(2 * (255 - Suc n) + 1) div 2 = 255 - Suc n" by simp
  then have hi: "SHAKE256 ramp_prims data 512 ! (2 * (255 - Suc n) + 1) = of_nat (Suc n)"
    using Suc.prems by (simp add: SHAKE256_nth ramp_prims_def)
  have "unat (of_nat (Suc n) :: byte) = Suc n"
    using Suc.prems by (intro unat_of_nat_byte) simp
  then have "(push_bit 8 (unat (SHAKE256 ramp_prims data 512 ! (2 * (255 - Suc n)))) OR
         unat (SHAKE256 ramp_prims data 512 ! (2 * (255 - Suc n) + 1))) mod (Suc n + 1) = Suc n"
    by (simp only: lo hi) simp
  then show ?case
    using Suc.prems Suc.IH by (simp only: fisher_yates_sbox_Suc swap_same)
qed

lemma sbox_candidate_ramp: "sbox_candidate ramp_prims K round t = identity_sbox"
  by (simp add: sbox_candidate_def regenerate_with_new_seed_def shuffle_identity_def fisher_yates_ramp)

lemma generate_sbox_ramp: "generate_sbox ramp_prims K round = identity_sbox"
proof -
  have "generate_sbox ramp_prims K round = sbox_candidate ramp_prims K round 100"
    by (rule generate_sbox_exhausted) (simp add: sbox_candidate_ramp identity_sbox_rejected)
  then show ?thesis by (simp add: sbox_candidate_ramp)
qed


subsection \<open>Claims on the S-box generator\<close>

text \<open>
  Claim C3. When the first shuffle and all 100 retries are rejected by
  \<open>verify_sbox_properties\<close>, the listing of \<open>generate_sbox\<close> leaves its loop and
  returns the last candidate: no failure is raised. The theorem evaluates the generator on
  such an input: under the ramp stream every one of the 101 candidates is rejected, and the
  generator returns the identity table.
\<close>

theorem generate_sbox_returns_when_exhausted:
  "list_all (\<lambda>t. \<not> verify_sbox_properties (sbox_candidate ramp_prims (replicate 64 0) 0 t)) [0..<101]
   \<and> generate_sbox ramp_prims (replicate 64 0) 0 = sbox_candidate ramp_prims (replicate 64 0) 0 100
   \<and> generate_sbox ramp_prims (replicate 64 0) 0 = identity_sbox"
  by (simp only: list_all_iff sbox_candidate_ramp generate_sbox_ramp identity_sbox_rejected)
     simp

text \<open>Whatever the path, the generator returns one of its candidates, and every candidate
  is a shuffle of the identity table: the result is a permutation of \<open>[0, 1, ..., 255]\<close>.\<close>

lemma generate_sbox_bijective:
  "mset (generate_sbox p K round) = mset identity_sbox
   \<and> distinct (generate_sbox p K round)
   \<and> length (generate_sbox p K round) = 256"
proof -
  obtain t where t: "generate_sbox p K round = sbox_candidate p K round t"
    using generate_sbox_is_candidate by blast
  have perm: "mset (generate_sbox p K round) = mset identity_sbox"
    by (simp only: t sbox_candidate_mset)
  have "distinct (generate_sbox p K round)"
    using perm distinct_identity_sbox by (metis mset_eq_imp_distinct_iff)
  moreover have "length (generate_sbox p K round) = 256"
    using perm length_identity_sbox by (metis size_mset)
  ultimately show ?thesis
    using perm by blast
qed

text \<open>On the path the listing covers, the generator does what the specification asks: as
  soon as one of the 101 candidates passes \<open>verify_sbox_properties\<close>, the returned S-box
  meets the strict bounds.\<close>

lemma generate_sbox_accepted_strict:
  assumes "t \<le> 100" "verify_sbox_properties (sbox_candidate p K round t)"
  shows "strict_bounds (generate_sbox p K round)"
proof -
  have "verify_sbox_properties (generate_sbox p K round)"
    using assms by (rule generate_sbox_accepts)
  moreover have "mset (generate_sbox p K round) = mset identity_sbox"
    using generate_sbox_bijective by blast
  ultimately show ?thesis
    by (simp only: verify_permutation)
qed

text \<open>
  Claim C4. The strict bounds fail on the path the listing of \<open>generate_sbox\<close> does not
  guard: for every key and round for which the first shuffle and all 100 retries are
  rejected by \<open>verify_sbox_properties\<close>, the generator returns the candidate of retry
  100, which is a permutation of \<open>[0, 1, ..., 255]\<close> and does not meet the strict bounds
  (non-linearity at least 100, differential uniformity at most 4, algebraic degree at
  least 7) that the listing has just tested it against.
\<close>

theorem generate_sbox_exhausted_not_strict:
  assumes "list_all (\<lambda>t. \<not> verify_sbox_properties (sbox_candidate p K round t)) [0..<101]"
  shows "generate_sbox p K round = sbox_candidate p K round 100
       \<and> distinct (generate_sbox p K round)
       \<and> length (generate_sbox p K round) = 256
       \<and> \<not> (compute_nonlinearity (generate_sbox p K round) \<ge> 100
            \<and> compute_differential_uniformity (generate_sbox p K round) \<le> 4
            \<and> compute_algebraic_degree (generate_sbox p K round) \<ge> 7)"
proof -
  have rej: "\<not> verify_sbox_properties (sbox_candidate p K round t)" if "t \<le> 100" for t
  proof -
    from that have "t \<in> set [0..<101]" by (simp del: upt_rec_numeral)
    moreover from assms
    have "\<forall>t\<in>set [0..<101]. \<not> verify_sbox_properties (sbox_candidate p K round t)"
      by (simp only: list_all_iff)
    ultimately show ?thesis by blast
  qed
  have g: "generate_sbox p K round = sbox_candidate p K round 100"
    using rej by (rule generate_sbox_exhausted)
  have nv: "\<not> verify_sbox_properties (generate_sbox p K round)"
    using rej [of 100] by (simp only: g) simp
  have perm: "mset (generate_sbox p K round) = mset identity_sbox"
    using generate_sbox_bijective by blast
  have "\<not> strict_bounds (generate_sbox p K round)"
    using nv verify_permutation [OF perm] by blast
  then have "\<not> (compute_nonlinearity (generate_sbox p K round) \<ge> 100
            \<and> compute_differential_uniformity (generate_sbox p K round) \<le> 4
            \<and> compute_algebraic_degree (generate_sbox p K round) \<ge> 7)"
    by (simp add: strict_bounds_def)
  then show ?thesis
    using g generate_sbox_bijective [of p K round] by blast
qed

theorem generate_sbox_exhausted_not_strict_witness:
  "list_all (\<lambda>t. \<not> verify_sbox_properties (sbox_candidate ramp_prims (replicate 64 0) 0 t)) [0..<101]
   \<and> distinct (generate_sbox ramp_prims (replicate 64 0) 0)
   \<and> \<not> (compute_nonlinearity (generate_sbox ramp_prims (replicate 64 0) 0) \<ge> 100
        \<and> compute_differential_uniformity (generate_sbox ramp_prims (replicate 64 0) 0) \<le> 4
        \<and> compute_algebraic_degree (generate_sbox ramp_prims (replicate 64 0) 0) \<ge> 7)"
proof -
  have h: "list_all (\<lambda>t. \<not> verify_sbox_properties (sbox_candidate ramp_prims (replicate 64 0) 0 t))
             [0..<101]"
    by (simp only: list_all_iff sbox_candidate_ramp identity_sbox_rejected) simp
  from generate_sbox_exhausted_not_strict [OF h]
  show ?thesis
    using h by blast
qed
section \<open>Properties of the key expansion\<close>

lemma permute_selectors_mset:
  "n < length SEL \<Longrightarrow> mset (permute_selectors p n st SEL) = mset SEL"
proof (induction n arbitrary: st SEL)
  case 0
  show ?case by simp
next
  case (Suc n)
  obtain rb st1 where nb: "ChaCha20_NextBytes p st 4 = (rb, st1)"
    by (cases "ChaCha20_NextBytes p st 4")
  define j where "j = bytes_to_nat rb mod (Suc n + 1)"
  have j: "j < length SEL"
    unfolding j_def using Suc.prems by (rule draw_in_range)
  have "n < length (swap SEL (Suc n) j)"
    using Suc.prems by (simp add: length_swap)
  then have "mset (permute_selectors p n st1 (swap SEL (Suc n) j)) = mset (swap SEL (Suc n) j)"
    by (rule Suc.IH)
  then show ?case
    using Suc.prems j by (simp add: nb Let_def j_def mset_swap_cells)
qed

lemma bytes_to_nat_bound: "bytes_to_nat bs < 256 ^ length bs"
proof -
  have "foldl (\<lambda>acc b. acc * 256 + unat b) a bs < (a + 1) * 256 ^ length bs" for a
  proof (induction bs arbitrary: a)
    case Nil
    show ?case by simp
  next
    case (Cons b bs)
    have "unat b < 256" using unsigned_less [of b] by simp
    then have "a * 256 + unat b + 1 \<le> (a + 1) * 256" by simp
    then have "(a * 256 + unat b + 1) * 256 ^ length bs \<le> (a + 1) * 256 * 256 ^ length bs"
      by (rule mult_le_mono1)
    moreover have "foldl (\<lambda>acc b. acc * 256 + unat b) (a * 256 + unat b) bs
        < (a * 256 + unat b + 1) * 256 ^ length bs"
      by (rule Cons.IH)
    ultimately have "foldl (\<lambda>acc b. acc * 256 + unat b) (a * 256 + unat b) bs
        < (a + 1) * 256 * 256 ^ length bs"
      by (rule order.strict_trans2 [rotated])
    then show ?case
      by (simp only: foldl_Cons length_Cons power_Suc mult.assoc)
  qed
  from this [of 0] show ?thesis by (simp add: bytes_to_nat_def)
qed

lemma expand_selector_props:
  "odd (expand_selector p K i) \<and> expand_selector p K i \<noteq> 0 \<and> expand_selector p K i < 2 ^ 16"
proof -
  define s where "s = bytes_to_nat (SHAKE256 p (K @ ascii ''RUC-SEL'' @ int_to_bytes i 2) 2)"
  have "s < 256 ^ 2"
    unfolding s_def using bytes_to_nat_bound [of "SHAKE256 p (K @ ascii ''RUC-SEL'' @ int_to_bytes i 2) 2"]
    by (simp add: SHAKE256_def)
  then have b: "s < 65536" by simp
  have e: "expand_selector p K i = (if s mod 2 = 0 then s + 1 else s)"
    by (simp add: expand_selector_def Let_def s_def)
  show ?thesis
  proof (cases "s mod 2 = 0")
    case True
    then have "s \<noteq> 65535" by presburger
    then show ?thesis using True b e by simp presburger
  next
    case False
    then show ?thesis using b e by simp presburger
  qed
qed

text \<open>
  Claim C8. For every 64-byte key the selector sequence of the key expansion has
  \<open>16 + (K[1] mod 16)\<close> elements, hence between 16 and 31; every element is odd,
  non-zero and below \<open>2^16\<close>; and the sequence is a permutation of the selectors derived
  from SHAKE256 before the shuffle.
\<close>

theorem selectors_invariant:
  assumes "length K = 64"
  shows "length (km_SEL (key_expand p K)) = 16 + unat (K ! 1) mod 16
       \<and> 16 \<le> length (km_SEL (key_expand p K)) \<and> length (km_SEL (key_expand p K)) \<le> 31
       \<and> list_all (\<lambda>s. odd s \<and> s \<noteq> 0 \<and> s < 2 ^ 16) (km_SEL (key_expand p K))
       \<and> mset (km_SEL (key_expand p K)) = mset (preshuffle_selectors p K)"
proof -
  have len: "length (preshuffle_selectors p K) = num_selectors K"
    by (simp add: preshuffle_selectors_def)
  have n: "num_selectors K - 1 < length (preshuffle_selectors p K)"
    by (simp add: len num_selectors_def)
  have sel: "km_SEL (key_expand p K) =
      permute_selectors p (num_selectors K - 1)
        (ChaCha20_Init (SHAKE256 p (K @ ascii ''RUC-PERM'') 32) (replicate 12 0))
        (preshuffle_selectors p K)"
    by (simp add: key_expand_def Let_def)
  have ms: "mset (km_SEL (key_expand p K)) = mset (preshuffle_selectors p K)"
    unfolding sel using n by (rule permute_selectors_mset)
  then have l: "length (km_SEL (key_expand p K)) = num_selectors K"
    using len by (metis size_mset)
  have "set (km_SEL (key_expand p K)) = set (preshuffle_selectors p K)"
    using ms by (rule mset_eq_setD)
  then have all: "list_all (\<lambda>s. odd s \<and> s \<noteq> 0 \<and> s < 2 ^ 16) (km_SEL (key_expand p K))"
    unfolding list_all_iff preshuffle_selectors_def
    using expand_selector_props [of p K] by (metis (no_types, lifting) imageE set_map)
  have "unat (K ! 1) mod 16 < 16" by simp
  then show ?thesis
    using ms l all by (simp add: num_selectors_def)
qed

theorem selectors_invariant_witness:
  "length (replicate 64 (0 :: byte)) = 64
   \<and> length (km_SEL (key_expand zero_prims (replicate 64 0))) = 16
   \<and> list_all (\<lambda>s. odd s \<and> s \<noteq> 0 \<and> s < 2 ^ 16) (km_SEL (key_expand zero_prims (replicate 64 0)))
   \<and> mset (km_SEL (key_expand zero_prims (replicate 64 0)))
       = mset (preshuffle_selectors zero_prims (replicate 64 0))"
proof -
  have h: "length (replicate 64 (0 :: byte)) = 64" by simp
  have k1: "unat (replicate 64 (0 :: byte) ! 1) mod 16 = 0" by simp
  from selectors_invariant [OF h, of zero_prims] show ?thesis
    by (simp only: k1 h) simp
qed

section \<open>Properties of the block transform and the modes\<close>

subsection \<open>Blocks\<close>

lemma length_xor_block: "length (xor_block A B) = 32"
  by (simp add: xor_block_def)

lemma xor_block_cancel: "length A = 32 \<Longrightarrow> xor_block (xor_block A B) B = A"
  by (rule nth_equalityI) (simp_all add: xor_block_def xor.assoc del: upt_rec_numeral)

lemma decrypt_encrypt_block:
  assumes "length P = 32"
  shows "decrypt_block p (fst (encrypt_block p P K IV n R km)) K IV n R km
           = (P, snd (encrypt_block p P K IV n R km))"
  using assms by (simp add: decrypt_block_def encrypt_block_def Let_def xor_block_cancel)

lemma encrypt_block_keystream:
  "fst (encrypt_block p P K IV n R km) = xor_block P (fst (block_keystream p K IV n R km))"
  by (simp add: encrypt_block_def Let_def)

lemma length_encrypt_block: "length (fst (encrypt_block p P K IV n R km)) = 32"
  by (simp add: encrypt_block_keystream length_xor_block)

subsection \<open>Padding\<close>

lemma pad_length_range: "0 < 32 - (n :: nat) mod 32 \<and> 32 - n mod 32 \<le> 32"
proof -
  have "n mod 32 < 32" by simp
  then show ?thesis by linarith
qed

lemma pkcs7_pad_unfold:
  "pkcs7_pad data 32 = data @ replicate (32 - length data mod 32) (of_nat (32 - length data mod 32))"
  using pad_length_range [of "length data"] by (simp add: pkcs7_pad_def Let_def)

lemma length_pkcs7_pad: "length (pkcs7_pad data 32) = length data + (32 - length data mod 32)"
  by (simp add: pkcs7_pad_unfold)

lemma pkcs7_pad_blocks_eq: "length (pkcs7_pad data 32) = 32 * (length data div 32 + 1)"
proof -
  have "32 * (length data div 32) + length data mod 32 = length data" by simp
  moreover have "length data mod 32 < 32" by simp
  ultimately have "length data + (32 - length data mod 32) = 32 * (length data div 32) + 32"
    by linarith
  then show ?thesis by (simp only: length_pkcs7_pad) simp
qed

lemma pkcs7_pad_multiple: "length (pkcs7_pad data 32) mod 32 = 0"
  by (simp only: pkcs7_pad_blocks_eq mod_mult_self1_is_0)

lemma pkcs7_pad_blocks: "length (pkcs7_pad data 32) div 32 = length data div 32 + 1"
  by (simp only: pkcs7_pad_blocks_eq) simp

lemma pkcs7_unpad_pad: "pkcs7_unpad (pkcs7_pad data 32) = Inr data"
proof -
  define k where "k = 32 - length data mod 32"
  have k: "0 < k" "k \<le> 32"
    using pad_length_range [of "length data"] by (simp_all add: k_def)
  have pad: "pkcs7_pad data 32 = data @ replicate k (of_nat k)"
    by (simp add: pkcs7_pad_unfold k_def)
  have uk: "unat (of_nat k :: byte) = k"
    using k by (simp add: unat_of_nat)
  have len: "length (data @ replicate k (of_nat k :: byte)) = length data + k"
    by simp
  have "length data + k - 1 = length data + (k - 1)"
    using k by simp
  then have lastb: "(data @ replicate k (of_nat k :: byte)) ! (length data + k - 1) = of_nat k"
    using k by (simp only: nth_append_length_plus) simp
  have tail: "\<not> list_ex (\<lambda>i. unat ((data @ replicate k (of_nat k :: byte)) ! i) \<noteq> k)
                 [length data + k - k..<length data + k]"
    using uk by (auto simp add: list_ex_iff nth_append)
  show ?thesis
    unfolding pad pkcs7_unpad_def len Let_def lastb uk
    using k tail by simp
qed

subsection \<open>Splitting into blocks\<close>

lemma split_blocks_Nil: "split_blocks [] = []"
  by (simp add: split_blocks_def)

lemma split_blocks_append:
  assumes "length b = 32"
  shows "split_blocks (b @ rest) = b # split_blocks rest"
proof -
  have d: "length (b @ rest) div 32 = Suc (length rest div 32)"
    using assms by simp
  have "split_blocks (b @ rest)
      = take 32 (drop (0 * 32) (b @ rest))
          # map (\<lambda>n. take 32 (drop (Suc n * 32) (b @ rest))) [0..<length rest div 32]"
    unfolding split_blocks_def d by (simp only: map_upt_Suc)
  also have "take 32 (drop (0 * 32) (b @ rest)) = b"
    using assms by simp
  also have "map (\<lambda>n. take 32 (drop (Suc n * 32) (b @ rest))) [0..<length rest div 32]
      = map (\<lambda>n. take 32 (drop (n * 32) rest)) [0..<length rest div 32]"
    using assms by simp
  finally show ?thesis by (simp add: split_blocks_def)
qed

lemma split_blocks_concat:
  "list_all (\<lambda>b. length b = 32) bs \<Longrightarrow> split_blocks (concat bs) = bs"
  by (induction bs) (simp_all add: split_blocks_Nil split_blocks_append)

lemma split_blocks_exact:
  "length x = 32 * k \<Longrightarrow>
     concat (split_blocks x) = x \<and> list_all (\<lambda>b. length b = 32) (split_blocks x)
       \<and> length (split_blocks x) = k"
proof (induction k arbitrary: x)
  case 0
  then show ?case by (simp add: split_blocks_Nil)
next
  case (Suc k)
  have l: "length (take 32 x) = 32" using Suc.prems by simp
  have "length (drop 32 x) = 32 * k" using Suc.prems by simp
  then have ih: "concat (split_blocks (drop 32 x)) = drop 32 x
      \<and> list_all (\<lambda>b. length b = 32) (split_blocks (drop 32 x))
      \<and> length (split_blocks (drop 32 x)) = k"
    by (rule Suc.IH)
  have "split_blocks (take 32 x @ drop 32 x) = take 32 x # split_blocks (drop 32 x)"
    using l by (rule split_blocks_append)
  then have "split_blocks x = take 32 x # split_blocks (drop 32 x)"
    by simp
  then show ?case using ih l by simp
qed

lemma split_blocks_multiple:
  assumes "length x mod 32 = 0"
  shows "concat (split_blocks x) = x" and "list_all (\<lambda>b. length b = 32) (split_blocks x)"
    and "length (split_blocks x) = length x div 32"
proof -
  have "length x = 32 * (length x div 32)" using assms by auto
  from split_blocks_exact [OF this]
  show "concat (split_blocks x) = x" and "list_all (\<lambda>b. length b = 32) (split_blocks x)"
    and "length (split_blocks x) = length x div 32"
    by simp_all
qed

lemma length_concat_blocks:
  "list_all (\<lambda>b. length b = 32) bs \<Longrightarrow> length (concat bs) = 32 * length bs"
  by (induction bs) simp_all

subsection \<open>Counter mode\<close>

lemma ctr_encrypt_loop_blocks:
  "list_all (\<lambda>b. length b = 32) (ctr_encrypt_loop p K IV R_init km n Ps)
     \<and> length (ctr_encrypt_loop p K IV R_init km n Ps) = length Ps"
  by (induction Ps arbitrary: n) (simp_all add: Let_def length_encrypt_block)

lemma ctr_loop_roundtrip:
  "list_all (\<lambda>b. length b = 32) Ps \<Longrightarrow>
     ctr_decrypt_loop p K IV R_init km n (ctr_encrypt_loop p K IV R_init km n Ps) = Ps"
  by (induction Ps arbitrary: n) (simp_all add: Let_def decrypt_encrypt_block)

lemma ctr_body_roundtrip:
  "ctr_decrypt_body p (ctr_encrypt_body p plaintext K IV) K IV = Inr plaintext"
proof -
  let ?km = "key_expand p K"
  let ?R = "mix_iv_into_state p (km_R ?km) IV"
  let ?Ps = "split_blocks (pkcs7_pad plaintext 32)"
  let ?Cs = "ctr_encrypt_loop p K IV ?R ?km 0 ?Ps"
  have ps: "list_all (\<lambda>b. length b = 32) ?Ps" "concat ?Ps = pkcs7_pad plaintext 32"
    using split_blocks_multiple [OF pkcs7_pad_multiple] by simp_all
  have cs: "list_all (\<lambda>b. length b = 32) ?Cs"
    using ctr_encrypt_loop_blocks by blast
  have "split_blocks (concat ?Cs) = ?Cs"
    using cs by (rule split_blocks_concat)
  then have "ctr_decrypt_loop p K IV ?R ?km 0 (split_blocks (concat ?Cs)) = ?Ps"
    using ps(1) by (simp add: ctr_loop_roundtrip)
  then show ?thesis
    by (simp add: ctr_decrypt_body_def ctr_encrypt_body_def Let_def ps(2) pkcs7_unpad_pad)
qed

lemma length_ctr_encrypt_body:
  "length (ctr_encrypt_body p plaintext K IV) = 32 * (length plaintext div 32 + 1)"
proof -
  let ?km = "key_expand p K"
  let ?R = "mix_iv_into_state p (km_R ?km) IV"
  let ?Ps = "split_blocks (pkcs7_pad plaintext 32)"
  have "length (concat (ctr_encrypt_loop p K IV ?R ?km 0 ?Ps)) = 32 * length ?Ps"
    using ctr_encrypt_loop_blocks [of p K IV ?R ?km 0 ?Ps]
    by (simp add: length_concat_blocks)
  also have "length ?Ps = length (pkcs7_pad plaintext 32) div 32"
    using split_blocks_multiple(3) [OF pkcs7_pad_multiple] by simp
  finally show ?thesis
    by (simp add: ctr_encrypt_body_def Let_def pkcs7_pad_blocks)
qed

lemma ctr_roundtrip:
  assumes "length K = 64" "length nonce = 16"
  shows "RUC_CTR_Decrypt p (RUC_CTR_Encrypt p plaintext K nonce) K = Inr plaintext"
proof -
  let ?IV = "SHAKE256 p (nonce @ ascii ''RUC-CTR-IV'') 32"
  let ?body = "ctr_encrypt_body p plaintext K ?IV"
  have l: "length ?body = 32 * (length plaintext div 32 + 1)"
    by (rule length_ctr_encrypt_body)
  have env: "RUC_CTR_Encrypt p plaintext K nonce = nonce @ ?body"
    by (simp add: RUC_CTR_Encrypt_def Let_def)
  show ?thesis
    unfolding env RUC_CTR_Decrypt_def
    using assms l by (simp add: Let_def ctr_body_roundtrip)
qed

subsection \<open>Cipher block chaining\<close>

lemma cbc_encrypt_loop_blocks:
  "list_all (\<lambda>b. length b = 32) (cbc_encrypt_loop p K IV km n R prev Ps)
     \<and> length (cbc_encrypt_loop p K IV km n R prev Ps) = length Ps"
  by (induction Ps arbitrary: n R prev) (simp_all add: Let_def length_encrypt_block)

lemma cbc_loop_roundtrip:
  "list_all (\<lambda>b. length b = 32) Ps \<Longrightarrow>
     cbc_decrypt_loop p K IV km n R prev (cbc_encrypt_loop p K IV km n R prev Ps) = Ps"
proof (induction Ps arbitrary: n R prev)
  case Nil
  show ?case by simp
next
  case (Cons P Ps)
  then have lp: "length P = 32" and rest: "list_all (\<lambda>b. length b = 32) Ps" by simp_all
  have lx: "length (xor_block P prev) = 32" by (rule length_xor_block)
  show ?case
    using Cons.IH [OF rest] lp
    by (simp add: Let_def decrypt_encrypt_block [OF lx] xor_block_cancel)
qed

lemma cbc_roundtrip:
  assumes "length K = 64" "length IV = 32"
  shows "RUC_CBC_Decrypt p (RUC_CBC_Encrypt p plaintext K IV) K = Inr plaintext"
proof -
  let ?km = "key_expand p K"
  let ?R = "mix_iv_into_state p (km_R ?km) IV"
  let ?Ps = "split_blocks (pkcs7_pad plaintext 32)"
  let ?Cs = "cbc_encrypt_loop p K IV ?km 0 ?R IV ?Ps"
  have ps: "list_all (\<lambda>b. length b = 32) ?Ps" "concat ?Ps = pkcs7_pad plaintext 32"
    "length ?Ps = length (pkcs7_pad plaintext 32) div 32"
    using split_blocks_multiple [OF pkcs7_pad_multiple] by simp_all
  have cs: "list_all (\<lambda>b. length b = 32) ?Cs" "length ?Cs = length ?Ps"
    using cbc_encrypt_loop_blocks [of p K IV ?km 0 ?R IV ?Ps] by simp_all
  have lc: "length (concat ?Cs) = 32 * (length plaintext div 32 + 1)"
    using cs ps(3) by (simp add: length_concat_blocks pkcs7_pad_blocks)
  have sp: "split_blocks (concat ?Cs) = ?Cs"
    using cs(1) by (rule split_blocks_concat)
  have env: "RUC_CBC_Encrypt p plaintext K IV = IV @ concat ?Cs"
    by (simp add: RUC_CBC_Encrypt_def Let_def)
  have dec: "cbc_decrypt_loop p K IV ?km 0 ?R IV ?Cs = ?Ps"
    using ps(1) by (rule cbc_loop_roundtrip)
  show ?thesis
    unfolding env RUC_CBC_Decrypt_def
    using assms lc by (simp add: Let_def sp dec ps(2) pkcs7_unpad_pad)
qed

subsection \<open>Authenticated encryption\<close>

lemma length_aead_tag: "length (aead_tag p K nonce aad ciphertext) = 16"
  by (simp add: aead_tag_def Let_def TAG_SIZE_def)

lemma length_aeadEncrypt:
  "length (aeadEncrypt p plaintext K nonce aad)
     = length nonce + 32 * (length plaintext div 32 + 1) + 16"
  by (simp add: aeadEncrypt_def Let_def length_aead_tag length_ctr_encrypt_body)

lemma aead_roundtrip:
  assumes "length K = 64" "length nonce = 16"
  shows "aeadDecrypt p (aeadEncrypt p plaintext K nonce aad) K aad = Inr plaintext"
proof -
  let ?ek = "SHAKE256 p (K @ ascii ''RUC-GCM-ENC'') 64"
  let ?IV = "SHAKE256 p (nonce @ ascii ''RUC-GCM-IV'') 32"
  let ?body = "ctr_encrypt_body p plaintext ?ek ?IV"
  let ?tag = "aead_tag p K nonce aad ?body"
  have l: "length ?body = 32 * (length plaintext div 32 + 1)"
    by (rule length_ctr_encrypt_body)
  have t: "length ?tag = 16" by (rule length_aead_tag)
  have env: "aeadEncrypt p plaintext K nonce aad = nonce @ ?body @ ?tag"
    by (simp add: aeadEncrypt_def Let_def)
  show ?thesis
    unfolding env aeadDecrypt_def
    using assms l t by (simp add: Let_def TAG_SIZE_def ctr_body_roundtrip)
qed

subsection \<open>Claims on the modes\<close>

lemma length_split_padded:
  "length (split_blocks (pkcs7_pad plaintext 32)) = length plaintext div 32 + 1"
  using split_blocks_multiple(3) [OF pkcs7_pad_multiple] by (simp add: pkcs7_pad_blocks)

lemma ctr_encrypt_loop_nth:
  "m < length Ps \<Longrightarrow>
     ctr_encrypt_loop p K IV R_init km n Ps ! m
       = xor_block (Ps ! m)
           (fst (block_keystream p K IV (n + m) (ctr_registers p R_init (n + m)) km))"
proof (induction Ps arbitrary: n m)
  case Nil
  then show ?case by simp
next
  case (Cons P Ps)
  show ?case
  proof (cases m)
    case 0
    then show ?thesis
      by (simp add: Let_def encrypt_block_keystream)
  next
    case (Suc m')
    then have "m' < length Ps" using Cons.prems by simp
    then have "ctr_encrypt_loop p K IV R_init km (n + 1) Ps ! m'
       = xor_block (Ps ! m')
           (fst (block_keystream p K IV (n + 1 + m') (ctr_registers p R_init (n + 1 + m')) km))"
      by (rule Cons.IH)
    then show ?thesis
      using Suc by (simp add: Let_def)
  qed
qed

lemma ctr_body_block:
  assumes "m < length (split_blocks (pkcs7_pad plaintext 32))"
  shows "split_blocks (ctr_encrypt_body p plaintext K IV) ! m
           = xor_block (split_blocks (pkcs7_pad plaintext 32) ! m) (ctr_keystream p K IV m)"
proof -
  let ?km = "key_expand p K"
  let ?R = "mix_iv_into_state p (km_R ?km) IV"
  let ?Ps = "split_blocks (pkcs7_pad plaintext 32)"
  let ?Cs = "ctr_encrypt_loop p K IV ?R ?km 0 ?Ps"
  have "list_all (\<lambda>b. length b = 32) ?Cs"
    using ctr_encrypt_loop_blocks by blast
  then have "split_blocks (concat ?Cs) = ?Cs"
    by (rule split_blocks_concat)
  then have "split_blocks (ctr_encrypt_body p plaintext K IV) ! m = ?Cs ! m"
    by (simp add: ctr_encrypt_body_def Let_def)
  also have "\<dots> = xor_block (?Ps ! m)
      (fst (block_keystream p K IV (0 + m) (ctr_registers p ?R (0 + m)) ?km))"
    using assms by (rule ctr_encrypt_loop_nth)
  finally show ?thesis
    by (simp add: ctr_keystream_def Let_def)
qed

text \<open>
  Claim C2. For every 64-byte key and every message, whatever its length (so also for the
  lengths 0 to 10*32+17 of the claim), decrypting the envelope that encryption produced
  gives the message back, in counter mode with any 16-byte nonce, in CBC mode with any
  32-byte IV, and in the authenticated mode with any 16-byte nonce and any associated data.
\<close>

theorem mode_roundtrip:
  assumes "length K = 64"
  shows "(length nonce = 16 \<longrightarrow>
            RUC_CTR_Decrypt p (RUC_CTR_Encrypt p message K nonce) K = Inr message)
       \<and> (length IV = 32 \<longrightarrow>
            RUC_CBC_Decrypt p (RUC_CBC_Encrypt p message K IV) K = Inr message)
       \<and> (length nonce = 16 \<longrightarrow>
            aeadDecrypt p (aeadEncrypt p message K nonce aad) K aad = Inr message)"
  using assms by (simp add: ctr_roundtrip cbc_roundtrip aead_roundtrip)

theorem mode_roundtrip_witness:
  "length (replicate 64 (0 :: byte)) = 64 \<and> length (replicate 16 (0 :: byte)) = 16
   \<and> length (replicate 32 (0 :: byte)) = 32
   \<and> RUC_CTR_Decrypt zero_prims
        (RUC_CTR_Encrypt zero_prims [1, 2, 3] (replicate 64 0) (replicate 16 0)) (replicate 64 0)
       = Inr [1, 2, 3]
   \<and> RUC_CBC_Decrypt zero_prims
        (RUC_CBC_Encrypt zero_prims [1, 2, 3] (replicate 64 0) (replicate 32 0)) (replicate 64 0)
       = Inr [1, 2, 3]
   \<and> aeadDecrypt zero_prims
        (aeadEncrypt zero_prims [1, 2, 3] (replicate 64 0) (replicate 16 0) [7]) (replicate 64 0) [7]
       = Inr [1, 2, 3]"
proof -
  have k: "length (replicate 64 (0 :: byte)) = 64"
    and n: "length (replicate 16 (0 :: byte)) = 16"
    and i: "length (replicate 32 (0 :: byte)) = 32"
    by simp_all
  from mode_roundtrip [OF k, of "replicate 16 0" zero_prims "[1, 2, 3]" "replicate 32 0" "[7]"]
  show ?thesis
    using k n i by blast
qed

text \<open>
  Claim C5. Encryption is a function of its inputs, and the keystream does not depend on
  the text: the ciphertext of a block is the block XORed with \<open>block_keystream\<close>, which
  takes the key, the IV, the block index and the registers only; in counter mode block
  \<open>m\<close> of the envelope is block \<open>m\<close> of the padded message XORed with
  \<open>ctr_keystream\<close>, which takes the key, the IV and the block index only, so no block
  depends on another block or on an earlier call.
\<close>

theorem encryption_deterministic:
  "fst (encrypt_block p P K IV n R km) = xor_block P (fst (block_keystream p K IV n R km))
   \<and> (length nonce = 16 \<longrightarrow> m < length (split_blocks (pkcs7_pad plaintext 32)) \<longrightarrow>
        split_blocks (drop 16 (RUC_CTR_Encrypt p plaintext K nonce)) ! m
          = xor_block (split_blocks (pkcs7_pad plaintext 32) ! m)
              (ctr_keystream p K (SHAKE256 p (nonce @ ascii ''RUC-CTR-IV'') 32) m))"
  by (simp add: encrypt_block_keystream RUC_CTR_Encrypt_def Let_def ctr_body_block)

theorem encryption_deterministic_witness:
  "length (replicate 16 (0 :: byte)) = 16
   \<and> (0 :: nat) < length (split_blocks (pkcs7_pad [1, 2, 3] 32))
   \<and> split_blocks (drop 16 (RUC_CTR_Encrypt zero_prims [1, 2, 3] (replicate 64 0) (replicate 16 0))) ! 0
       = xor_block (split_blocks (pkcs7_pad [1, 2, 3] 32) ! 0)
           (ctr_keystream zero_prims (replicate 64 0)
              (SHAKE256 zero_prims (replicate 16 0 @ ascii ''RUC-CTR-IV'') 32) 0)"
proof -
  have n: "length (replicate 16 (0 :: byte)) = 16" by simp
  have b: "(0 :: nat) < length (split_blocks (pkcs7_pad [1, 2, 3 :: byte] 32))"
    by (simp only: length_split_padded)
  from encryption_deterministic
    [of zero_prims "[]" "replicate 64 0" "[]" 0 "[]" "key_expand zero_prims []"
       "replicate 16 0" 0 "[1, 2, 3]"]
  show ?thesis
    using n b by blast
qed



text \<open>The order of the checks in \<open>aeadDecrypt\<close>: an envelope of admissible length whose
  tag differs from the recomputed one is rejected, whatever its ciphertext decrypts to.\<close>

lemma aead_tag_mismatch:
  assumes "length K = 64" "16 + 32 + 16 \<le> length envelope" "(length envelope - 32) mod 32 = 0"
    and "drop (length envelope - 16) envelope
           \<noteq> aead_tag p K (take 16 envelope) aad (take (length envelope - 32) (drop 16 envelope))"
  shows "aeadDecrypt p envelope K aad = Inl AuthenticationFailed"
  using assms by (simp add: aeadDecrypt_def TAG_SIZE_def Let_def)
section \<open>Properties of the public API\<close>

subsection \<open>Hexadecimal\<close>

lemma less_numeral_cases: "(n :: nat) < numeral k \<longleftrightarrow> n = pred_numeral k \<or> n < pred_numeral k"
  by (auto simp add: numeral_eq_Suc)

lemma hex_digit_props:
  assumes "a < 16"
  shows "hex_value (hex_digits ! a) = Some a"
    and "\<not> js_whitespace (hex_digits ! a)"
    and "hex_digits ! a \<noteq> CHR ''+''" and "hex_digits ! a \<noteq> CHR ''-''"
    and "hex_digits ! a \<noteq> CHR ''x''" and "hex_digits ! a \<noteq> CHR ''X''"
proof -
  from assms have "hex_value (hex_digits ! a) = Some a \<and> \<not> js_whitespace (hex_digits ! a)
      \<and> hex_digits ! a \<noteq> CHR ''+'' \<and> hex_digits ! a \<noteq> CHR ''-''
      \<and> hex_digits ! a \<noteq> CHR ''x'' \<and> hex_digits ! a \<noteq> CHR ''X''"
    by (auto simp add: less_numeral_cases hex_digits_def hex_value_def js_whitespace_def)
  then show "hex_value (hex_digits ! a) = Some a"
    and "\<not> js_whitespace (hex_digits ! a)"
    and "hex_digits ! a \<noteq> CHR ''+''" and "hex_digits ! a \<noteq> CHR ''-''"
    and "hex_digits ! a \<noteq> CHR ''x''" and "hex_digits ! a \<noteq> CHR ''X''"
    by simp_all
qed

lemma hex_pair:
  assumes "n < 256"
  shows "padStart 2 (CHR ''0'') (toString16 n) = [hex_digits ! (n div 16), hex_digits ! (n mod 16)]"
proof (cases "n < 16")
  case True
  then have "toString16 n = [hex_digits ! n]"
    by (simp add: toString16.simps)
  moreover have "hex_digits ! 0 = CHR ''0''"
    by (simp add: hex_digits_def)
  ultimately show ?thesis
    using True by (simp add: padStart_def)
next
  case False
  then have "n div 16 < 16" using assms by simp
  then have "toString16 (n div 16) = [hex_digits ! (n div 16)]"
    by (simp add: toString16.simps)
  then have "toString16 n = [hex_digits ! (n div 16), hex_digits ! (n mod 16)]"
    using False by (subst toString16.simps) simp
  then show ?thesis
    by (simp add: padStart_def)
qed

lemma parse_hex_pair:
  assumes "a < 16" "b < 16"
  shows "parseInt16 [hex_digits ! a, hex_digits ! b] = Some (int (a * 16 + b))"
  using hex_digit_props [OF assms(1)] hex_digit_props [OF assms(2)]
  by (simp add: parseInt16_def strip_hex_prefix_def Let_def)

lemma byte_of_hex_pair:
  "toUint8 (parseInt16 (padStart 2 (CHR ''0'') (toString16 (unat (b :: byte))))) = b"
proof -
  have n: "unat b < 256" using unsigned_less [of b] by simp
  then have "unat b div 16 < 16" by simp
  moreover have "unat b mod 16 < 16" by simp
  ultimately have "parseInt16 (padStart 2 (CHR ''0'') (toString16 (unat b)))
      = Some (int (unat b div 16 * 16 + unat b mod 16))"
    by (simp only: hex_pair [OF n] parse_hex_pair)
  then show ?thesis
    by (simp add: toUint8_def)
qed

lemma length_hex_pair: "length (padStart 2 (CHR ''0'') (toString16 (unat (b :: byte)))) = 2"
proof -
  have "unat b < 256" using unsigned_less [of b] by simp
  then show ?thesis by (simp add: hex_pair)
qed

lemma length_bytesToHex: "length (bytesToHex bs) = 2 * length bs"
  by (induction bs) (simp_all add: bytesToHex_def length_hex_pair)

lemma substr_bytesToHex:
  "i < length bs \<Longrightarrow>
     substr (bytesToHex bs) (i * 2) 2 = padStart 2 (CHR ''0'') (toString16 (unat (bs ! i)))"
proof (induction bs arbitrary: i)
  case Nil
  then show ?case by simp
next
  case (Cons b bs)
  have split: "bytesToHex (b # bs) = padStart 2 (CHR ''0'') (toString16 (unat b)) @ bytesToHex bs"
    by (simp add: bytesToHex_def)
  show ?case
  proof (cases i)
    case 0
    then show ?thesis
      by (simp add: split substr_def length_hex_pair)
  next
    case (Suc j)
    then have "j < length bs" using Cons.prems by simp
    then have "substr (bytesToHex bs) (j * 2) 2 = padStart 2 (CHR ''0'') (toString16 (unat (bs ! j)))"
      by (rule Cons.IH)
    then show ?thesis
      using Suc by (simp add: split substr_def length_hex_pair)
  qed
qed

lemma hex_roundtrip: "hexToBytes (bytesToHex bs) = bs"
  by (rule nth_equalityI)
     (simp_all add: hexToBytes_def length_bytesToHex substr_bytesToHex byte_of_hex_pair)


subsection \<open>Base64\<close>

lemma b64_char_table:
  assumes "n < 64"
  shows "b64_index (b64_char n) = Some n \<and> \<not> ascii_whitespace (b64_char n)
      \<and> b64_char n \<noteq> CHR ''=''"
  using assms
  by (auto simp add: less_numeral_cases b64_char_def b64_alphabet_def b64_index_def
      ascii_whitespace_def)

lemma b64_char_props:
  assumes "n < 64"
  shows "b64_index (b64_char n) = Some n" and "b64_good (b64_char n)"
  using b64_char_table [OF assms] by (simp_all add: b64_good_def)

lemma pad_char_props: "\<not> ascii_whitespace (CHR ''='')" "b64_index (CHR ''='') = None"
  by (simp_all add: ascii_whitespace_def b64_index_def)

lemma sextet_bounds:
  fixes a b c :: nat
  shows "a < 256 \<Longrightarrow> a div 4 < 64"
    and "b < 256 \<Longrightarrow> a mod 4 * 16 + b div 16 < 64"
    and "c < 256 \<Longrightarrow> b mod 16 * 4 + c div 64 < 64"
    and "c mod 64 < 64" and "a mod 4 * 16 < 64" and "b mod 16 * 4 < 64"
proof -
  have "a mod 4 < 4" "b mod 16 < 16" by simp_all
  then have m: "a mod 4 * 16 \<le> 48" "b mod 16 * 4 \<le> 60" by simp_all
  show "a < 256 \<Longrightarrow> a div 4 < 64" by simp
  show "b < 256 \<Longrightarrow> a mod 4 * 16 + b div 16 < 64"
  proof -
    assume "b < 256"
    then have "b div 16 < 16" by simp
    with m(1) show ?thesis by linarith
  qed
  show "c < 256 \<Longrightarrow> b mod 16 * 4 + c div 64 < 64"
  proof -
    assume "c < 256"
    then have "c div 64 < 4" by simp
    with m(2) show ?thesis by linarith
  qed
  show "c mod 64 < 64" by simp
  show "a mod 4 * 16 < 64" using m(1) by linarith
  show "b mod 16 * 4 < 64" using m(2) by linarith
qed

lemma byte_div_facts:
  fixes n :: nat
  assumes "n < 256"
  shows "n div 16 div 16 = 0" "n div 16 mod 16 = n div 16"
    "n div 64 div 4 = 0" "n div 64 mod 4 = n div 64"
proof -
  have "n div 16 < 16" "n div 64 < 4" using assms by simp_all
  then show "n div 16 div 16 = 0" "n div 16 mod 16 = n div 16"
    "n div 64 div 4 = 0" "n div 64 mod 4 = n div 64"
    by simp_all
qed

lemma unat_byte_bound: "unat (b :: byte) < 256"
  using unsigned_less [of b] by simp

lemma btoa_groups_split:
  "btoa_groups codes = b64_body codes @ replicate ((3 - length codes mod 3) mod 3) (CHR ''='')"
proof (induction codes rule: b64_body.induct)
  case 1
  show ?case by simp
next
  case (2 a)
  have "replicate 2 (CHR ''='') = [CHR ''='', CHR ''='']"
    by (simp add: numeral_2_eq_2)
  then show ?case by simp
next
  case (3 a b)
  show ?case by simp
next
  case (4 a b c rest)
  have "Suc (Suc (Suc (length rest))) mod 3 = length rest mod 3"
    by presburger
  with 4 show ?case by simp
qed

lemma length_btoa_groups: "length (btoa_groups codes) mod 4 = 0"
  by (induction codes rule: btoa_groups.induct) simp_all

lemma length_b64_body: "length (b64_body codes) mod 4 \<noteq> 1"
  by (induction codes rule: b64_body.induct) simp_all

lemma b64_body_good:
  "list_all (\<lambda>n. n < 256) codes \<Longrightarrow> list_all b64_good (b64_body codes)"
  by (induction codes rule: b64_body.induct) (simp_all add: b64_char_props sextet_bounds)

lemma b64_body_decode:
  "list_all (\<lambda>n. n < 256) codes \<Longrightarrow>
     atob_groups (map (\<lambda>c. case b64_index c of Some v \<Rightarrow> v | None \<Rightarrow> 0) (b64_body codes)) = codes"
  by (induction codes rule: b64_body.induct)
     (simp_all add: b64_char_props sextet_bounds byte_div_facts)

lemma strip_padding_body:
  assumes "body = [] \<or> last body \<noteq> CHR ''=''" "k \<le> 2"
  shows "strip_padding (body @ replicate k (CHR ''='')) = body"
proof -
  consider "k = 0" | "k = 1" | "k = 2" using assms(2) by linarith
  then show ?thesis
  proof cases
    case 1
    then show ?thesis using assms(1) by (auto simp add: strip_padding_def)
  next
    case 2
    then show ?thesis using assms(1) by (auto simp add: strip_padding_def Let_def)
  next
    case 3
    then show ?thesis
      by (simp add: strip_padding_def Let_def numeral_eq_Suc butlast_append)
  qed
qed

lemma atob_btoa_groups:
  assumes "list_all (\<lambda>n. n < 256) codes"
  shows "atob (btoa_groups codes) = Some (map char_of codes)"
proof -
  let ?pad = "replicate ((3 - length codes mod 3) mod 3) (CHR ''='')"
  have good: "list_all b64_good (b64_body codes)"
    using assms by (rule b64_body_good)
  have nows: "filter (\<lambda>c. \<not> ascii_whitespace c) (btoa_groups codes) = btoa_groups codes"
    using good unfolding btoa_groups_split
    by (auto simp add: list_all_iff b64_good_def pad_char_props filter_id_conv)
  have last: "b64_body codes = [] \<or> last (b64_body codes) \<noteq> CHR ''=''"
  proof (cases "b64_body codes = []")
    case False
    then have "last (b64_body codes) \<in> set (b64_body codes)" by simp
    then show ?thesis using good by (auto simp add: list_all_iff b64_good_def)
  qed simp
  have "(3 - length codes mod 3) mod 3 \<le> 2" by simp
  with last have strip: "strip_padding (btoa_groups codes) = b64_body codes"
    unfolding btoa_groups_split by (rule strip_padding_body)
  have noex: "\<not> list_ex (\<lambda>c. b64_index c = None) (b64_body codes)"
    using good by (auto simp add: list_all_iff list_ex_iff b64_good_def)
  show ?thesis
    unfolding atob_def nows Let_def
    using length_btoa_groups [of codes] length_b64_body [of codes] noex
    by (simp add: strip b64_body_decode [OF assms])
qed

lemma base64_roundtrip: "base64ToBytes (bytesToBase64 bs) = Inr bs"
proof -
  have lt: "list_all (\<lambda>n. n < 256) (map unat bs)"
    by (simp add: list_all_iff unat_byte_bound)
  have codes: "map of_char (map (\<lambda>b. char_of (unat b)) bs) = map unat bs"
    by (simp add: o_def unat_byte_bound)
  have "atob (bytesToBase64 bs) = Some (map char_of (map unat bs))"
    unfolding bytesToBase64_def btoa_def codes using lt by (rule atob_btoa_groups)
  moreover have "map (\<lambda>x. word_of_nat (unat x mod 256)) bs = bs"
    by (simp add: unat_byte_bound map_idI)
  ultimately show ?thesis
    by (simp add: base64ToBytes_def o_def)
qed

text \<open>
  Claim C9. The encoding helpers round-trip: decoding the base64 text of a byte array gives
  the byte array back, without error, and so does decoding its hexadecimal text.
\<close>

theorem encoding_roundtrip:
  "base64ToBytes (bytesToBase64 b) = Inr b \<and> hexToBytes (bytesToHex b) = b"
  by (simp add: base64_roundtrip hex_roundtrip)

subsection \<open>Length guards of the password API\<close>

text \<open>
  Claim C10. \<open>decryptWithPassword\<close> rejects every input shorter than 64 bytes and
  \<open>decryptWithPasswordAEAD\<close> every input shorter than 96 bytes with the error
  \<open>Ciphertext too short\<close>, and the list of events is empty: no salt has been extracted
  and no key derivation started.
\<close>

theorem short_ciphertext_rejected:
  "(length ciphertext < 64 \<longrightarrow>
      decryptWithPassword co ciphertext password level = ([], Inl (Error ''Ciphertext too short'')))
   \<and> (length ciphertext < 96 \<longrightarrow>
      decryptWithPasswordAEAD co ciphertext password associatedData level
        = ([], Inl (Error ''Ciphertext too short'')))"
  by (simp add: decryptWithPassword_def decryptWithPasswordAEAD_def SALT_SIZE_def
      BYTES_NONCE_def BYTES_BLOCK_def)

theorem short_ciphertext_rejected_witness:
  "length (replicate 63 (0 :: byte)) < 64
   \<and> decryptWithPassword failing_collaborators (replicate 63 0) ''secret'' interactive
       = ([], Inl (Error ''Ciphertext too short''))
   \<and> length (replicate 95 (0 :: byte)) < 96
   \<and> decryptWithPasswordAEAD failing_collaborators (replicate 95 0) ''secret'' None interactive
       = ([], Inl (Error ''Ciphertext too short''))"
  using short_ciphertext_rejected [of "replicate 63 0" failing_collaborators "''secret''" interactive None]
    short_ciphertext_rejected [of "replicate 95 0" failing_collaborators "''secret''" interactive None]
  by simp

end
